theory Spec2Isabelle
  imports Main
begin

section \<open>Package bio: seekable buffered I/O\<close>

text \<open>
  The package \<^verbatim>\<open>cmd/internal/bio\<close> (file \<^verbatim>\<open>buf.go\<close>) wraps a \<^verbatim>\<open>*os.File\<close> and a
  \<^verbatim>\<open>*bufio.Reader\<close> or \<^verbatim>\<open>*bufio.Writer\<close> over that same file. The functions of
  \<^verbatim>\<open>buf.go\<close> are embedded one by one in the last part of the definitions. The packages
  \<^verbatim>\<open>os\<close>, \<^verbatim>\<open>bufio\<close> and \<^verbatim>\<open>io\<close> that they call are modelled first.

  A byte is a \<^typ>\<open>char\<close> (256 values), a byte slice and a Go string are both a
  \<^typ>\<open>string\<close>. A pointer to a file is a key into a store of files, \<^verbatim>\<open>nil\<close> is
  \<^const>\<open>None\<close>: the file of a Reader is reached both through its field \<^verbatim>\<open>f\<close> and
  through the buffered reader, and a seek on the first changes what the second reads.
\<close>

subsection \<open>Errors\<close>

type_synonym byte = char

datatype error =
    io_EOF
  | ErrUnexpectedEOF
  | ErrShortWrite
  | ErrNoProgress
  | ErrNegativeCount
  | ErrBufferFull
  | ErrInvalid
  | EBADF
  | EINVAL
  | EIO
  | ENOSPC

text \<open>\<^verbatim>\<open>log.Fatalf(format, err)\<close> ends the process: the message prefix and the cause.\<close>

datatype abort = Fatal string error

subsection \<open>The storage handle (os.File)\<close>

text \<open>
  Modelled from the spec: \<^verbatim>\<open>os.File\<close> is not among the sources. The spec calls it a
  random-access storage handle with a raw cursor, whose reads, writes, seeks and release
  may each fail. A file is its bytes and its cursor; \<open>closed\<close> says the handle was
  released; \<open>rd_bad = Some k\<close> is a medium that cannot be read at offset \<open>k\<close> and beyond;
  \<open>capacity = Some k\<close> is a device that holds no byte at offset \<open>k\<close> and beyond;
  \<open>close_fault\<close> makes the release report a failure.
\<close>

record File =
  contents :: "byte list"
  cursor :: nat
  closed :: bool
  rd_bad :: "nat option"
  capacity :: "nat option"
  close_fault :: bool

type_synonym store = "nat \<Rightarrow> File"

definition maxInt64 :: int where
  "maxInt64 = 2 ^ 63 - 1"

text \<open>Two's complement wrap-around of an \<^verbatim>\<open>int64\<close> result.\<close>

definition wrap64 :: "int \<Rightarrow> int" where
  "wrap64 x = (x + 2 ^ 63) mod 2 ^ 64 - 2 ^ 63"

text \<open>
  A read into a slice of length \<open>n\<close>: the bytes obtained, the error, the file. A read of
  a non-empty slice returns at least one byte or an error, \<^const>\<open>io_EOF\<close> at the end of the
  bytes.
\<close>

definition file_Read :: "File \<Rightarrow> nat \<Rightarrow> byte list \<times> error option \<times> File" where
  "file_Read fl n =
     (if closed fl then ([], Some EBADF, fl)
      else if n = 0 then ([], None, fl)
      else if length (contents fl) \<le> cursor fl then ([], Some io_EOF, fl)
      else if (case rd_bad fl of None \<Rightarrow> False | Some k \<Rightarrow> k \<le> cursor fl) then ([], Some EIO, fl)
      else
        (let readable = (case rd_bad fl of None \<Rightarrow> contents fl | Some k \<Rightarrow> take k (contents fl));
             data = take n (drop (cursor fl) readable)
         in (data, None, fl\<lparr>cursor := cursor fl + length data\<rparr>)))"

text \<open>
  A write of \<open>p\<close> at the cursor: the count written, the error, the file. A seek beyond the
  end followed by a write leaves zero bytes in the gap. A write that stores fewer bytes
  than \<open>p\<close> has always reports an error.
\<close>

definition write_at :: "byte list \<Rightarrow> nat \<Rightarrow> byte list \<Rightarrow> byte list" where
  "write_at cs c q =
     take c (cs @ replicate (c - length cs) (CHR 0x00)) @ q @ drop (c + length q) cs"

definition file_Write :: "File \<Rightarrow> byte list \<Rightarrow> nat \<times> error option \<times> File" where
  "file_Write fl p =
     (if closed fl then (0, Some EBADF, fl)
      else
        (let room = (case capacity fl of None \<Rightarrow> length p
                     | Some k \<Rightarrow> min (length p) (k - cursor fl));
             q = take room p;
             fl' = (if q = [] then fl
                    else fl\<lparr>contents := write_at (contents fl) (cursor fl) q,
                            cursor := cursor fl + length q\<rparr>)
         in (room, if room < length p then Some ENOSPC else None, fl')))"

text \<open>
  A seek: \<open>whence\<close> 0 is from the start, 1 from the cursor, 2 from the end; any other
  value, and a target that is negative or not an \<^verbatim>\<open>int64\<close>, is refused.
\<close>

definition file_Seek :: "File \<Rightarrow> int \<Rightarrow> int \<Rightarrow> error + (int \<times> File)" where
  "file_Seek fl offset whence =
     (if closed fl then Inl EBADF
      else if whence \<noteq> 0 \<and> whence \<noteq> 1 \<and> whence \<noteq> 2 then Inl EINVAL
      else
        (let base = (if whence = 0 then 0
                     else if whence = 1 then int (cursor fl)
                     else int (length (contents fl)));
             target = base + offset
         in if target < 0 \<or> maxInt64 < target then Inl EINVAL
            else Inr (target, fl\<lparr>cursor := nat target\<rparr>)))"

definition file_Close :: "File \<Rightarrow> error option \<times> File" where
  "file_Close fl =
     (if closed fl then (Some ErrInvalid, fl)
      else (if close_fault fl then Some EIO else None, fl\<lparr>closed := True\<rparr>))"

text \<open>
  The methods of \<^verbatim>\<open>*os.File\<close> on a pointer into the store. On a \<^verbatim>\<open>nil\<close> pointer each
  returns \<^const>\<open>ErrInvalid\<close>.
\<close>

definition os_Read :: "store \<Rightarrow> nat option \<Rightarrow> nat \<Rightarrow> byte list \<times> error option \<times> store" where
  "os_Read \<sigma> fp n =
     (case fp of
        None \<Rightarrow> ([], Some ErrInvalid, \<sigma>)
      | Some h \<Rightarrow> (case file_Read (\<sigma> h) n of (data, err, fl) \<Rightarrow> (data, err, \<sigma>(h := fl))))"

definition os_Write :: "store \<Rightarrow> nat option \<Rightarrow> byte list \<Rightarrow> nat \<times> error option \<times> store" where
  "os_Write \<sigma> fp p =
     (case fp of
        None \<Rightarrow> (0, Some ErrInvalid, \<sigma>)
      | Some h \<Rightarrow> (case file_Write (\<sigma> h) p of (n, err, fl) \<Rightarrow> (n, err, \<sigma>(h := fl))))"

definition os_Seek :: "store \<Rightarrow> nat option \<Rightarrow> int \<Rightarrow> int \<Rightarrow> error + (int \<times> store)" where
  "os_Seek \<sigma> fp offset whence =
     (case fp of
        None \<Rightarrow> Inl ErrInvalid
      | Some h \<Rightarrow>
          (case file_Seek (\<sigma> h) offset whence of
             Inl err \<Rightarrow> Inl err
           | Inr (off, fl) \<Rightarrow> Inr (off, \<sigma>(h := fl))))"

definition os_Close :: "store \<Rightarrow> nat option \<Rightarrow> error option \<times> store" where
  "os_Close \<sigma> fp =
     (case fp of
        None \<Rightarrow> (Some ErrInvalid, \<sigma>)
      | Some h \<Rightarrow> (case file_Close (\<sigma> h) of (err, fl) \<Rightarrow> (err, \<sigma>(h := fl))))"

subsection \<open>The read-ahead buffer (bufio.Reader)\<close>

text \<open>
  Modelled from the spec: \<^verbatim>\<open>bufio.Reader\<close> is not among the sources. The spec's
  read-ahead buffer holds the bytes already pulled from the handle and not yet delivered
  to the caller: \<open>rbuf\<close> is that run of bytes (the slice \<^verbatim>\<open>buf[r:w]\<close>), \<open>rerr\<close> the
  error of the last read of the handle, kept until it is reported, \<open>rd\<close> the handle. The
  buffer holds up to \<open>defaultBufSize\<close> bytes.
\<close>

definition defaultBufSize :: nat where
  "defaultBufSize = 4096"

record bufio_Reader =
  rd :: "nat option"
  rbuf :: "byte list"
  rerr :: "error option"

definition NewReader :: "nat option \<Rightarrow> bufio_Reader" where
  "NewReader fp = \<lparr>rd = fp, rbuf = [], rerr = None\<rparr>"

definition Reset :: "bufio_Reader \<Rightarrow> nat option \<Rightarrow> bufio_Reader" where
  "Reset b fp = \<lparr>rd = fp, rbuf = [], rerr = None\<rparr>"

definition Buffered :: "bufio_Reader \<Rightarrow> nat" where
  "Buffered b = length (rbuf b)"

text \<open>\<^verbatim>\<open>readErr\<close> reports the pending error and forgets it.\<close>

definition readErr :: "bufio_Reader \<Rightarrow> error option \<times> bufio_Reader" where
  "readErr b = (rerr b, b\<lparr>rerr := None\<rparr>)"

text \<open>
  \<^verbatim>\<open>fill\<close> reads the handle once into the free part of the buffer. Its callers call it
  only when the buffer is not full. Reads that return neither a byte nor an error, which
  the handle above never gives for a non-empty slice, end as \<^const>\<open>ErrNoProgress\<close>.
\<close>

definition fill :: "bufio_Reader \<Rightarrow> store \<Rightarrow> bufio_Reader \<times> store" where
  "fill b \<sigma> =
     (case os_Read \<sigma> (rd b) (defaultBufSize - length (rbuf b)) of
        (data, err, \<sigma>') \<Rightarrow>
          (b\<lparr>rbuf := rbuf b @ data,
             rerr := (if err \<noteq> None then err
                      else if data = [] then Some ErrNoProgress else rerr b)\<rparr>, \<sigma>'))"

text \<open>\<^verbatim>\<open>copy(dst, src)\<close>: the count copied and the destination afterwards.\<close>

definition copy :: "byte list \<Rightarrow> byte list \<Rightarrow> nat \<times> byte list" where
  "copy dst src =
     (let n = min (length dst) (length src) in (n, take n src @ drop n dst))"

text \<open>
  \<^verbatim>\<open>Read(p)\<close>: the count, the error, the slice \<open>p\<close> afterwards. With bytes in the buffer
  it copies from them and does not touch the handle; with an empty buffer it reads the
  handle once, directly into \<open>p\<close> when \<open>p\<close> is at least as long as the buffer.
\<close>

definition bufio_Read ::
  "bufio_Reader \<Rightarrow> store \<Rightarrow> byte list \<Rightarrow> nat \<times> error option \<times> byte list \<times> bufio_Reader \<times> store" where
  "bufio_Read b \<sigma> p =
     (if length p = 0 then
        (case readErr b of (err, b') \<Rightarrow> (0, err, p, b', \<sigma>))
      else if rbuf b = [] \<and> rerr b \<noteq> None then
        (case readErr b of (err, b') \<Rightarrow> (0, err, p, b', \<sigma>))
      else if rbuf b = [] \<and> defaultBufSize \<le> length p then
        (case os_Read \<sigma> (rd b) (length p) of
           (data, e, \<sigma>') \<Rightarrow>
             (case readErr (b\<lparr>rerr := e\<rparr>) of
                (err, b') \<Rightarrow> (length data, err, data @ drop (length data) p, b', \<sigma>')))
      else
        (case (if rbuf b = [] then fill b \<sigma> else (b, \<sigma>)) of
           (b1, \<sigma>') \<Rightarrow>
             if rbuf b1 = [] then
               (case readErr b1 of (err, b') \<Rightarrow> (0, err, p, b', \<sigma>'))
             else
               (case copy p (rbuf b1) of
                  (n, p') \<Rightarrow> (n, None, p', b1\<lparr>rbuf := drop n (rbuf b1)\<rparr>, \<sigma>'))))"

text \<open>\<^verbatim>\<open>ReadByte\<close>: with an empty buffer and no pending error it fills once.\<close>

definition ReadByte :: "bufio_Reader \<Rightarrow> store \<Rightarrow> byte \<times> error option \<times> bufio_Reader \<times> store" where
  "ReadByte b \<sigma> =
     (case (if rbuf b = [] \<and> rerr b = None then fill b \<sigma> else (b, \<sigma>)) of
        (b1, \<sigma>') \<Rightarrow>
          (case rbuf b1 of
             [] \<Rightarrow> (case readErr b1 of (err, b') \<Rightarrow> (CHR 0x00, err, b', \<sigma>'))
           | c # rest \<Rightarrow> (c, None, b1\<lparr>rbuf := rest\<rparr>, \<sigma>')))"

lemma file_Read_progress:
  "file_Read fl n = (data, err, fl') \<Longrightarrow> 0 < n \<Longrightarrow> err \<noteq> None \<or> data \<noteq> []"
  by (auto simp: file_Read_def Let_def split: if_splits option.splits)

lemma fill_progress:
  "fill b \<sigma> = (b', \<sigma>') \<Longrightarrow> rerr b = None \<Longrightarrow>
     rerr b' \<noteq> None \<or> length (rbuf b) < length (rbuf b')"
  by (auto simp: fill_def split: prod.splits if_splits)

text \<open>
  \<^verbatim>\<open>Peek(n)\<close> fills until \<open>n\<close> bytes are buffered or a read fails, and returns the next
  \<open>n\<close> bytes without consuming them.
\<close>

function Peek_loop :: "bufio_Reader \<Rightarrow> store \<Rightarrow> nat \<Rightarrow> bufio_Reader \<times> store" where
  "Peek_loop b \<sigma> n =
     (if length (rbuf b) < n \<and> rerr b = None then
        (case fill b \<sigma> of (b', \<sigma>') \<Rightarrow> Peek_loop b' \<sigma>' n)
      else (b, \<sigma>))"
  by pat_completeness auto
termination
  apply (relation "measure (\<lambda>(b, \<sigma>, n). if rerr b = None then Suc (n - length (rbuf b)) else 0)")
   apply simp
  subgoal for b s n xa y
    using fill_progress [of b s xa y] by auto
  done

declare Peek_loop.simps [simp del]

definition Peek ::
  "bufio_Reader \<Rightarrow> store \<Rightarrow> int \<Rightarrow> byte list \<times> error option \<times> bufio_Reader \<times> store" where
  "Peek b \<sigma> n =
     (if n < 0 then ([], Some ErrNegativeCount, b, \<sigma>)
      else if int defaultBufSize < n then ([], Some ErrBufferFull, b, \<sigma>)
      else
        (case Peek_loop b \<sigma> (nat n) of
           (b1, \<sigma>') \<Rightarrow>
             if length (rbuf b1) < nat n then
               (case readErr b1 of
                  (err, b') \<Rightarrow> (rbuf b1, if err = None then Some ErrBufferFull else err, b', \<sigma>'))
             else (take (nat n) (rbuf b1), None, b1, \<sigma>')))"

text \<open>
  \<^verbatim>\<open>ReadSlice(delim)\<close> searches the buffer for the delimiter, filling while the
  delimiter is absent, no error is pending and the buffer is not full.
\<close>

function ReadSlice ::
  "bufio_Reader \<Rightarrow> store \<Rightarrow> byte \<Rightarrow> byte list \<times> error option \<times> bufio_Reader \<times> store" where
  "ReadSlice b \<sigma> delim =
     (if delim \<in> set (rbuf b) then
        (let i = length (takeWhile (\<lambda>c. c \<noteq> delim) (rbuf b))
         in (take (i + 1) (rbuf b), None, b\<lparr>rbuf := drop (i + 1) (rbuf b)\<rparr>, \<sigma>))
      else if rerr b \<noteq> None then
        (case readErr b of (err, b') \<Rightarrow> (rbuf b, err, b'\<lparr>rbuf := []\<rparr>, \<sigma>))
      else if defaultBufSize \<le> Buffered b then
        (rbuf b, Some ErrBufferFull, b\<lparr>rbuf := []\<rparr>, \<sigma>)
      else (case fill b \<sigma> of (b', \<sigma>') \<Rightarrow> ReadSlice b' \<sigma>' delim))"
  by pat_completeness auto
termination
  apply (relation "measure (\<lambda>(b, \<sigma>, d). if rerr b = None then Suc (defaultBufSize - length (rbuf b)) else 0)")
   apply simp
  subgoal for b s d xa y
    using fill_progress [of b s xa y] by (auto simp: Buffered_def)
  done

declare ReadSlice.simps [simp del]

text \<open>The bytes of the handle at and after its cursor: what no read has returned yet.\<close>

definition unread :: "store \<Rightarrow> nat option \<Rightarrow> byte list" where
  "unread \<sigma> fp = (case fp of None \<Rightarrow> [] | Some h \<Rightarrow> drop (cursor (\<sigma> h)) (contents (\<sigma> h)))"

definition pending :: "bufio_Reader \<Rightarrow> store \<Rightarrow> nat" where
  "pending b \<sigma> =
     2 * (length (rbuf b) + length (unread \<sigma> (rd b))) + (if rerr b = None then 0 else 1)"

lemma file_Read_unread:
  "file_Read fl n = (data, err, fl') \<Longrightarrow>
     contents fl' = contents fl \<and> cursor fl' = cursor fl + length data
       \<and> length data \<le> length (contents fl) - cursor fl \<and> err \<noteq> Some ErrBufferFull"
  by (auto simp: file_Read_def Let_def split: if_splits option.splits)

lemma fill_pending:
  assumes "fill b \<sigma> = (b', \<sigma>')"
  shows "rd b' = rd b"
    and "length (rbuf b') + length (unread \<sigma>' (rd b')) = length (rbuf b) + length (unread \<sigma> (rd b))"
    and "rerr b = None \<Longrightarrow> rerr b' \<noteq> Some ErrBufferFull"
  using assms
  by (auto simp: fill_def os_Read_def unread_def split: prod.splits option.splits if_splits
      dest!: file_Read_unread)

lemma ReadSlice_full_pending:
  "ReadSlice b \<sigma> d = (frag, Some ErrBufferFull, b', \<sigma>') \<Longrightarrow>
     rerr b' = None \<and> rd b' = rd b \<and>
     (if rerr b = Some ErrBufferFull
      then length (rbuf b') + length (unread \<sigma>' (rd b')) \<le> length (rbuf b) + length (unread \<sigma> (rd b))
      else length (rbuf b') + length (unread \<sigma>' (rd b')) < length (rbuf b) + length (unread \<sigma> (rd b)))"
proof (induction b \<sigma> d rule: ReadSlice.induct)
  case (1 b \<sigma> delim)
  show ?case
  proof (cases "delim \<in> set (rbuf b) \<or> rerr b \<noteq> None \<or> defaultBufSize \<le> Buffered b")
    case True
    with "1.prems" show ?thesis
      by (subst (asm) ReadSlice.simps)
         (auto simp: Let_def readErr_def Buffered_def defaultBufSize_def split: if_splits)
  next
    case False
    obtain b1 \<sigma>1 where f: "fill b \<sigma> = (b1, \<sigma>1)" by (cases "fill b \<sigma>")
    from False f "1.prems" have r: "ReadSlice b1 \<sigma>1 delim = (frag, Some ErrBufferFull, b', \<sigma>')"
      by (subst (asm) ReadSlice.simps) simp
    from False have a1: "delim \<notin> set (rbuf b)" and a2: "\<not> rerr b \<noteq> None"
      and a3: "\<not> defaultBufSize \<le> Buffered b" by auto
    note ih = "1.IH" [OF a1 a2 a3 f [symmetric] r]
    from False have "rerr b = None" by simp
    with fill_pending [OF f] ih show ?thesis by auto
  qed
qed

text \<open>
  \<^verbatim>\<open>ReadBytes(delim)\<close> joins the fragments that \<^verbatim>\<open>ReadSlice\<close> returns with a full
  buffer and the final fragment, and returns them with the error that ended the search.
\<close>

function ReadBytes_loop ::
  "bufio_Reader \<Rightarrow> store \<Rightarrow> byte \<Rightarrow> byte list \<Rightarrow> byte list \<times> error option \<times> bufio_Reader \<times> store" where
  "ReadBytes_loop b \<sigma> delim full =
     (case ReadSlice b \<sigma> delim of
        (frag, e, b', \<sigma>') \<Rightarrow>
          if e = None then (full @ frag, None, b', \<sigma>')
          else if e \<noteq> Some ErrBufferFull then (full @ frag, e, b', \<sigma>')
          else ReadBytes_loop b' \<sigma>' delim (full @ frag))"
  by pat_completeness auto
termination
  apply (relation "measure (\<lambda>(b, \<sigma>, d, full). pending b \<sigma>)")
   apply simp
  subgoal for b s d full frag y e ya b' s'
    using ReadSlice_full_pending [of b s d frag b' s'] by (auto simp: pending_def split: if_splits)
  done

declare ReadBytes_loop.simps [simp del]

definition ReadBytes ::
  "bufio_Reader \<Rightarrow> store \<Rightarrow> byte \<Rightarrow> byte list \<times> error option \<times> bufio_Reader \<times> store" where
  "ReadBytes b \<sigma> delim = ReadBytes_loop b \<sigma> delim []"

subsection \<open>io.ReadFull\<close>

text \<open>
  Modelled from the spec: \<^verbatim>\<open>io.ReadFull\<close> is not among the sources. It reads until the
  caller's buffer is full or a read fails: the loop of \<^verbatim>\<open>io.ReadAtLeast\<close> with the
  minimum set to the length of the buffer, as \<^verbatim>\<open>ReadFull\<close> calls it. After the loop a
  full buffer clears the error, and a clean end after some bytes becomes
  \<^const>\<open>ErrUnexpectedEOF\<close>.
\<close>

lemma file_Read_count:
  "file_Read fl n = (data, err, fl') \<Longrightarrow>
     length data \<le> n \<and> (err \<noteq> None \<longrightarrow> data = []) \<and> (0 < n \<longrightarrow> err \<noteq> None \<or> data \<noteq> [])"
  by (auto simp: file_Read_def Let_def split: if_splits option.splits)

lemma os_Read_count:
  "os_Read \<sigma> fp n = (data, err, \<sigma>') \<Longrightarrow>
     length data \<le> n \<and> (err \<noteq> None \<longrightarrow> data = []) \<and> (0 < n \<longrightarrow> err \<noteq> None \<or> data \<noteq> [])"
  by (auto simp: os_Read_def split: option.splits prod.splits dest: file_Read_count)

lemma bufio_Read_progress:
  assumes "bufio_Read b \<sigma> p = (nn, e, p', b', \<sigma>')"
  shows "length p' = length p" and "nn \<le> length p" and "p \<noteq> [] \<Longrightarrow> e \<noteq> None \<or> 0 < nn"
proof -
  have "length p' = length p \<and> nn \<le> length p \<and> (p \<noteq> [] \<longrightarrow> e \<noteq> None \<or> 0 < nn)"
  proof (cases "p = [] \<or> (rbuf b = [] \<and> rerr b \<noteq> None)")
    case True
    with assms show ?thesis
      by (auto simp: bufio_Read_def readErr_def split: if_splits)
  next
    case False
    note nz = False
    show ?thesis
    proof (cases "rbuf b = [] \<and> defaultBufSize \<le> length p")
      case True
      obtain data e1 \<sigma>1 where o: "os_Read \<sigma> (rd b) (length p) = (data, e1, \<sigma>1)"
        by (cases "os_Read \<sigma> (rd b) (length p)")
      from os_Read_count [OF o] nz True o assms show ?thesis
        by (auto simp: bufio_Read_def readErr_def)
    next
      case False
      obtain b1 \<sigma>1 where f: "(if rbuf b = [] then fill b \<sigma> else (b, \<sigma>)) = (b1, \<sigma>1)"
        by (cases "if rbuf b = [] then fill b \<sigma> else (b, \<sigma>)")
      have pr: "rbuf b1 = [] \<Longrightarrow> rerr b1 \<noteq> None"
        using f nz fill_progress [of b \<sigma> b1 \<sigma>1] by (auto split: if_splits)
      from nz False f assms pr show ?thesis
        by (auto simp: bufio_Read_def readErr_def copy_def Let_def min_def split: if_splits)
    qed
  qed
  then show "length p' = length p" and "nn \<le> length p" and "p \<noteq> [] \<Longrightarrow> e \<noteq> None \<or> 0 < nn"
    by auto
qed

function ReadFull_loop ::
  "bufio_Reader \<Rightarrow> store \<Rightarrow> byte list \<Rightarrow> nat \<Rightarrow> error option
     \<Rightarrow> nat \<times> error option \<times> byte list \<times> bufio_Reader \<times> store" where
  "ReadFull_loop b \<sigma> buf n err =
     (if n < length buf \<and> err = None then
        (case bufio_Read b \<sigma> (drop n buf) of
           (nn, e, p', b', \<sigma>') \<Rightarrow> ReadFull_loop b' \<sigma>' (take n buf @ p') (n + nn) e)
      else (n, err, buf, b, \<sigma>))"
  by pat_completeness auto
termination
  apply (relation "measure (\<lambda>(b, \<sigma>, buf, n, err). if err = None then Suc (length buf - n) else 0)")
   apply simp
  subgoal for b s buf n err nn y e ya p' yb b' s'
    using bufio_Read_progress [of b s "drop n buf" nn e p' b' s'] by auto
  done

declare ReadFull_loop.simps [simp del]

definition io_ReadFull ::
  "bufio_Reader \<Rightarrow> store \<Rightarrow> byte list \<Rightarrow> nat \<times> error option \<times> byte list \<times> bufio_Reader \<times> store" where
  "io_ReadFull b \<sigma> buf =
     (case ReadFull_loop b \<sigma> buf 0 None of
        (n, err, buf', b', \<sigma>') \<Rightarrow>
          (n,
           if length buf \<le> n then None
           else if 0 < n \<and> err = Some io_EOF then Some ErrUnexpectedEOF
           else err,
           buf', b', \<sigma>'))"

subsection \<open>The write-behind buffer (bufio.Writer)\<close>

text \<open>
  Modelled from the spec: \<^verbatim>\<open>bufio.Writer\<close> is not among the sources. The spec's
  write-behind buffer holds the bytes accepted from the caller and not yet committed to
  the handle: \<open>wbuf\<close> is that run of bytes, \<open>werr\<close> the first write error, which every
  later operation reports again, \<open>wr\<close> the handle.
\<close>

record bufio_Writer =
  wr :: "nat option"
  wbuf :: "byte list"
  werr :: "error option"

definition NewWriter :: "nat option \<Rightarrow> bufio_Writer" where
  "NewWriter fp = \<lparr>wr = fp, wbuf = [], werr = None\<rparr>"

definition Available :: "bufio_Writer \<Rightarrow> nat" where
  "Available b = defaultBufSize - length (wbuf b)"

text \<open>
  \<^verbatim>\<open>Flush\<close> writes the buffered bytes to the handle. After a failed write the bytes the
  handle did not take stay buffered and the error is kept.
\<close>

definition bufio_Flush :: "bufio_Writer \<Rightarrow> store \<Rightarrow> error option \<times> bufio_Writer \<times> store" where
  "bufio_Flush b \<sigma> =
     (if werr b \<noteq> None then (werr b, b, \<sigma>)
      else if wbuf b = [] then (None, b, \<sigma>)
      else
        (case os_Write \<sigma> (wr b) (wbuf b) of
           (n, e, \<sigma>') \<Rightarrow>
             (let err = (if n < length (wbuf b) \<and> e = None then Some ErrShortWrite else e)
              in if err \<noteq> None then (err, b\<lparr>wbuf := drop n (wbuf b), werr := err\<rparr>, \<sigma>')
                 else (None, b\<lparr>wbuf := []\<rparr>, \<sigma>'))))"

lemma file_Write_count:
  "file_Write fl p = (n, e, fl') \<Longrightarrow> n \<le> length p \<and> (e = None \<longrightarrow> n = length p)"
  by (auto simp: file_Write_def Let_def split: if_splits option.splits)

lemma os_Write_count:
  "os_Write \<sigma> fp p = (n, e, \<sigma>') \<Longrightarrow> n \<le> length p \<and> (e = None \<longrightarrow> n = length p)"
  by (auto simp: os_Write_def split: option.splits prod.splits dest: file_Write_count)

lemma bufio_Flush_empties:
  "bufio_Flush b \<sigma> = (e, b', \<sigma>') \<Longrightarrow> werr b' = None \<Longrightarrow> wbuf b' = []"
  by (auto simp: bufio_Flush_def Let_def split: if_splits prod.splits)

text \<open>
  \<^verbatim>\<open>Write(p)\<close>: while \<open>p\<close> does not fit and no write has failed, an empty buffer lets
  \<open>p\<close> go to the handle directly, and a non-empty one is topped up and flushed. What is
  left of \<open>p\<close> is then buffered.
\<close>

function Write_loop ::
  "bufio_Writer \<Rightarrow> store \<Rightarrow> byte list \<Rightarrow> nat \<Rightarrow> nat \<times> byte list \<times> bufio_Writer \<times> store" where
  "Write_loop b \<sigma> p nn =
     (if Available b < length p \<and> werr b = None then
        (if wbuf b = [] then
           (case os_Write \<sigma> (wr b) p of
              (n, e, \<sigma>') \<Rightarrow> Write_loop (b\<lparr>werr := e\<rparr>) \<sigma>' (drop n p) (nn + n))
         else
           (let n = min (Available b) (length p)
            in case bufio_Flush (b\<lparr>wbuf := wbuf b @ take n p\<rparr>) \<sigma> of
                 (e, b', \<sigma>') \<Rightarrow> Write_loop b' \<sigma>' (drop n p) (nn + n)))
      else (nn, p, b, \<sigma>))"
  by pat_completeness auto
termination
  apply (relation "measure (\<lambda>(b, \<sigma>, p, nn).
           if werr b = None then Suc (2 * length p + (if wbuf b = [] then 0 else 1)) else 0)")
    apply simp
  subgoal for b s p nn n y e s'
    using os_Write_count [of s "wr b" p n e s'] by auto
  subgoal for b s p nn n e y b' s'
    using bufio_Flush_empties [of "b\<lparr>wbuf := wbuf b @ take n p\<rparr>" s e b' s'] by auto
  done

declare Write_loop.simps [simp del]

definition bufio_Write ::
  "bufio_Writer \<Rightarrow> store \<Rightarrow> byte list \<Rightarrow> nat \<times> error option \<times> bufio_Writer \<times> store" where
  "bufio_Write b \<sigma> p =
     (case Write_loop b \<sigma> p 0 of
        (nn, p', b', \<sigma>') \<Rightarrow>
          if werr b' \<noteq> None then (nn, werr b', b', \<sigma>')
          else
            (let n = min (Available b') (length p')
             in (nn + n, None, b'\<lparr>wbuf := wbuf b' @ take n p'\<rparr>, \<sigma>')))"

text \<open>\<^verbatim>\<open>WriteString(s)\<close> is the same loop without the direct write.\<close>

function WriteString_loop ::
  "bufio_Writer \<Rightarrow> store \<Rightarrow> string \<Rightarrow> nat \<Rightarrow> nat \<times> string \<times> bufio_Writer \<times> store" where
  "WriteString_loop b \<sigma> s nn =
     (if Available b < length s \<and> werr b = None then
        (let n = min (Available b) (length s)
         in case bufio_Flush (b\<lparr>wbuf := wbuf b @ take n s\<rparr>) \<sigma> of
              (e, b', \<sigma>') \<Rightarrow> WriteString_loop b' \<sigma>' (drop n s) (nn + n))
      else (nn, s, b, \<sigma>))"
  by pat_completeness auto
termination
  apply (relation "measure (\<lambda>(b, \<sigma>, p, nn).
           if werr b = None then Suc (2 * length p + (if wbuf b = [] then 0 else 1)) else 0)")
   apply simp
  subgoal for b s p nn n e y b' s'
    using bufio_Flush_empties [of "b\<lparr>wbuf := wbuf b @ take n p\<rparr>" s e b' s']
    by (auto simp: Available_def defaultBufSize_def)
  done

declare WriteString_loop.simps [simp del]

definition bufio_WriteString ::
  "bufio_Writer \<Rightarrow> store \<Rightarrow> string \<Rightarrow> nat \<times> error option \<times> bufio_Writer \<times> store" where
  "bufio_WriteString b \<sigma> s =
     (case WriteString_loop b \<sigma> s 0 of
        (nn, s', b', \<sigma>') \<Rightarrow>
          if werr b' \<noteq> None then (nn, werr b', b', \<sigma>')
          else
            (let n = min (Available b') (length s')
             in (nn + n, None, b'\<lparr>wbuf := wbuf b' @ take n s'\<rparr>, \<sigma>')))"

text \<open>\<^verbatim>\<open>WriteByte(c)\<close> flushes a full buffer first.\<close>

definition bufio_WriteByte :: "bufio_Writer \<Rightarrow> store \<Rightarrow> byte \<Rightarrow> error option \<times> bufio_Writer \<times> store" where
  "bufio_WriteByte b \<sigma> c =
     (if werr b \<noteq> None then (werr b, b, \<sigma>)
      else if Available b \<le> 0 then
        (case bufio_Flush b \<sigma> of
           (e, b', \<sigma>') \<Rightarrow>
             if e \<noteq> None then (werr b', b', \<sigma>')
             else (None, b'\<lparr>wbuf := wbuf b' @ [c]\<rparr>, \<sigma>'))
      else (None, b\<lparr>wbuf := wbuf b @ [c]\<rparr>, \<sigma>))"

subsection \<open>Package bio (buf.go)\<close>

text \<open>
  The two structs, with their fields \<^verbatim>\<open>f\<close> and \<^verbatim>\<open>r\<close> or \<^verbatim>\<open>w\<close>. Every function
  takes the store of files and returns it; a function that may call \<^verbatim>\<open>log.Fatalf\<close>
  returns the \<^typ>\<open>abort\<close> on the left.
\<close>

definition EOF :: int where
  "EOF = - 1"

record Reader =
  r_f :: "nat option"
  r_r :: bufio_Reader

record Writer =
  w_f :: "nat option"
  w_w :: bufio_Writer

text \<open>
  \<^verbatim>\<open>Create\<close> and \<^verbatim>\<open>Open\<close> take the outcome of \<^verbatim>\<open>os.Create(name)\<close> and
  \<^verbatim>\<open>os.Open(name)\<close>: an error, or the pointer to the file.
\<close>

definition Create :: "error + nat \<Rightarrow> error + Writer" where
  "Create res =
     (case res of
        Inl err \<Rightarrow> Inl err
      | Inr h \<Rightarrow> Inr \<lparr>w_f = Some h, w_w = NewWriter (Some h)\<rparr>)"

definition Open :: "error + nat \<Rightarrow> error + Reader" where
  "Open res =
     (case res of
        Inl err \<Rightarrow> Inl err
      | Inr h \<Rightarrow> Inr \<lparr>r_f = Some h, r_r = NewReader (Some h)\<rparr>)"

text \<open>The adapters leave the field \<^verbatim>\<open>f\<close> unset: it is \<^verbatim>\<open>nil\<close>.\<close>

definition BufWriter :: "nat option \<Rightarrow> Writer" where
  "BufWriter w = \<lparr>w_f = None, w_w = NewWriter w\<rparr>"

definition BufReader :: "nat option \<Rightarrow> Reader" where
  "BufReader r = \<lparr>r_f = None, r_r = NewReader r\<rparr>"

definition Writer_Write :: "Writer \<Rightarrow> store \<Rightarrow> byte list \<Rightarrow> nat \<times> error option \<times> Writer \<times> store" where
  "Writer_Write w \<sigma> p =
     (case bufio_Write (w_w w) \<sigma> p of (n, err, b, \<sigma>') \<Rightarrow> (n, err, w\<lparr>w_w := b\<rparr>, \<sigma>'))"

definition Writer_WriteString :: "Writer \<Rightarrow> store \<Rightarrow> string \<Rightarrow> nat \<times> error option \<times> Writer \<times> store" where
  "Writer_WriteString w \<sigma> p =
     (case bufio_WriteString (w_w w) \<sigma> p of (n, err, b, \<sigma>') \<Rightarrow> (n, err, w\<lparr>w_w := b\<rparr>, \<sigma>'))"

definition Reader_Seek :: "Reader \<Rightarrow> store \<Rightarrow> int \<Rightarrow> int \<Rightarrow> abort + (int \<times> Reader \<times> store)" where
  "Reader_Seek r \<sigma> offset whence =
     (let offset' = (if whence = 1 then wrap64 (offset - int (Buffered (r_r r))) else offset)
      in case os_Seek \<sigma> (r_f r) offset' whence of
           Inl err \<Rightarrow> Inl (Fatal ''seeking in output'' err)
         | Inr (off, \<sigma>') \<Rightarrow> Inr (off, r\<lparr>r_r := Reset (r_r r) (r_f r)\<rparr>, \<sigma>'))"

definition Writer_Seek :: "Writer \<Rightarrow> store \<Rightarrow> int \<Rightarrow> int \<Rightarrow> abort + (int \<times> Writer \<times> store)" where
  "Writer_Seek w \<sigma> offset whence =
     (case bufio_Flush (w_w w) \<sigma> of
        (Some err, b, \<sigma>') \<Rightarrow> Inl (Fatal ''writing output'' err)
      | (None, b, \<sigma>') \<Rightarrow>
          (case os_Seek \<sigma>' (w_f w) offset whence of
             Inl err \<Rightarrow> Inl (Fatal ''seeking in output'' err)
           | Inr (off, \<sigma>'') \<Rightarrow> Inr (off, w\<lparr>w_w := b\<rparr>, \<sigma>'')))"

definition Reader_Offset :: "Reader \<Rightarrow> store \<Rightarrow> abort + (int \<times> store)" where
  "Reader_Offset r \<sigma> =
     (case os_Seek \<sigma> (r_f r) 0 1 of
        Inl err \<Rightarrow> Inl (Fatal ''seeking in output [0, 1]'' err)
      | Inr (off, \<sigma>') \<Rightarrow> Inr (wrap64 (off - int (Buffered (r_r r))), \<sigma>'))"

definition Writer_Offset :: "Writer \<Rightarrow> store \<Rightarrow> abort + (int \<times> Writer \<times> store)" where
  "Writer_Offset w \<sigma> =
     (case bufio_Flush (w_w w) \<sigma> of
        (Some err, b, \<sigma>') \<Rightarrow> Inl (Fatal ''writing output'' err)
      | (None, b, \<sigma>') \<Rightarrow>
          (case os_Seek \<sigma>' (w_f w) 0 1 of
             Inl err \<Rightarrow> Inl (Fatal ''seeking in output [0, 1]'' err)
           | Inr (off, \<sigma>'') \<Rightarrow> Inr (off, w\<lparr>w_w := b\<rparr>, \<sigma>'')))"

definition Writer_Flush :: "Writer \<Rightarrow> store \<Rightarrow> error option \<times> Writer \<times> store" where
  "Writer_Flush w \<sigma> =
     (case bufio_Flush (w_w w) \<sigma> of (err, b, \<sigma>') \<Rightarrow> (err, w\<lparr>w_w := b\<rparr>, \<sigma>'))"

definition Writer_WriteByte :: "Writer \<Rightarrow> store \<Rightarrow> byte \<Rightarrow> error option \<times> Writer \<times> store" where
  "Writer_WriteByte w \<sigma> c =
     (case bufio_WriteByte (w_w w) \<sigma> c of (err, b, \<sigma>') \<Rightarrow> (err, w\<lparr>w_w := b\<rparr>, \<sigma>'))"

text \<open>\<^verbatim>\<open>Bread(r, p)\<close>: the count returned, and the slice \<open>p\<close> afterwards.\<close>

definition Bread :: "Reader \<Rightarrow> store \<Rightarrow> byte list \<Rightarrow> int \<times> byte list \<times> Reader \<times> store" where
  "Bread r \<sigma> p =
     (case io_ReadFull (r_r r) \<sigma> p of
        (n, err, p', b, \<sigma>') \<Rightarrow>
          ((if n = 0 then (if err \<noteq> None \<and> err \<noteq> Some io_EOF then - 1 else int n) else int n),
           p', r\<lparr>r_r := b\<rparr>, \<sigma>'))"

definition Bgetc :: "Reader \<Rightarrow> store \<Rightarrow> abort + (int \<times> Reader \<times> store)" where
  "Bgetc r \<sigma> =
     (case ReadByte (r_r r) \<sigma> of
        (c, Some err, b, \<sigma>') \<Rightarrow>
          if err \<noteq> io_EOF then Inl (Fatal ''reading input'' err)
          else Inr (EOF, r\<lparr>r_r := b\<rparr>, \<sigma>')
      | (c, None, b, \<sigma>') \<Rightarrow> Inr (of_char c, r\<lparr>r_r := b\<rparr>, \<sigma>'))"

definition Reader_Read ::
  "Reader \<Rightarrow> store \<Rightarrow> byte list \<Rightarrow> nat \<times> error option \<times> byte list \<times> Reader \<times> store" where
  "Reader_Read r \<sigma> p =
     (case bufio_Read (r_r r) \<sigma> p of
        (n, err, p', b, \<sigma>') \<Rightarrow> (n, err, p', r\<lparr>r_r := b\<rparr>, \<sigma>'))"

definition Reader_Peek :: "Reader \<Rightarrow> store \<Rightarrow> int \<Rightarrow> byte list \<times> error option \<times> Reader \<times> store" where
  "Reader_Peek r \<sigma> n =
     (case Peek (r_r r) \<sigma> n of (bs, err, b, \<sigma>') \<Rightarrow> (bs, err, r\<lparr>r_r := b\<rparr>, \<sigma>'))"

text \<open>\<^verbatim>\<open>Brdline(r, delim)\<close>: \<^verbatim>\<open>byte(delim)\<close> keeps the low eight bits of \<open>delim\<close>.\<close>

definition Brdline :: "Reader \<Rightarrow> store \<Rightarrow> int \<Rightarrow> abort + (string \<times> Reader \<times> store)" where
  "Brdline r \<sigma> delim =
     (case ReadBytes (r_r r) \<sigma> (char_of delim) of
        (s, Some err, b, \<sigma>') \<Rightarrow> Inl (Fatal ''reading input'' err)
      | (s, None, b, \<sigma>') \<Rightarrow> Inr (s, r\<lparr>r_r := b\<rparr>, \<sigma>'))"

definition Reader_Close :: "Reader \<Rightarrow> store \<Rightarrow> error option \<times> store" where
  "Reader_Close r \<sigma> = os_Close \<sigma> (r_f r)"

definition Writer_Close :: "Writer \<Rightarrow> store \<Rightarrow> error option \<times> Writer \<times> store" where
  "Writer_Close w \<sigma> =
     (case bufio_Flush (w_w w) \<sigma> of
        (err, b, \<sigma>') \<Rightarrow>
          (case os_Close \<sigma>' (w_f w) of
             (err1, \<sigma>'') \<Rightarrow> ((if err = None then err1 else err), w\<lparr>w_w := b\<rparr>, \<sigma>'')))"

subsection \<open>Files and handles of the statements\<close>

text \<open>A healthy open file with the given bytes and its cursor at the start.\<close>

definition new_file :: "string \<Rightarrow> File" where
  "new_file s =
     \<lparr>contents = s, cursor = 0, closed = False, rd_bad = None, capacity = None,
      close_fault = False\<rparr>"

text \<open>
  A Reader or Writer that \<^const>\<open>Open\<close> or \<^const>\<open>Create\<close> returned for the handle \<open>h\<close>: no
  function of the package changes the two pointers.
\<close>

definition Reader_on :: "nat \<Rightarrow> Reader \<Rightarrow> bool" where
  "Reader_on h r = (r_f r = Some h \<and> rd (r_r r) = Some h)"

definition Writer_on :: "nat \<Rightarrow> Writer \<Rightarrow> bool" where
  "Writer_on h w = (w_f w = Some h \<and> wr (w_w w) = Some h)"

text \<open>The file after the bytes \<open>q\<close> were written at its cursor.\<close>

definition flushed :: "File \<Rightarrow> byte list \<Rightarrow> File" where
  "flushed fl q =
     (if q = [] then fl
      else fl\<lparr>contents := write_at (contents fl) (cursor fl) q, cursor := cursor fl + length q\<rparr>)"

subsection \<open>What a reader still has to deliver\<close>

text \<open>
  The bytes that reads of the handle return before they report an error, and the error
  they report once those bytes are gone: \<^const>\<open>io_EOF\<close> at the clean end of the bytes,
  another error for a \<^verbatim>\<open>nil\<close> or released handle and for an unreadable medium.
\<close>

definition readable :: "store \<Rightarrow> nat option \<Rightarrow> byte list" where
  "readable \<sigma> fp =
     (case fp of
        None \<Rightarrow> []
      | Some h \<Rightarrow>
          if closed (\<sigma> h) then []
          else drop (cursor (\<sigma> h))
                 (case rd_bad (\<sigma> h) of
                    None \<Rightarrow> contents (\<sigma> h)
                  | Some k \<Rightarrow> take k (contents (\<sigma> h))))"

definition read_end :: "store \<Rightarrow> nat option \<Rightarrow> error" where
  "read_end \<sigma> fp =
     (case fp of
        None \<Rightarrow> ErrInvalid
      | Some h \<Rightarrow>
          if closed (\<sigma> h) then EBADF
          else if length (contents (\<sigma> h)) \<le> cursor (\<sigma> h) then io_EOF
          else (case rd_bad (\<sigma> h) of
                  None \<Rightarrow> io_EOF
                | Some k \<Rightarrow> if k < length (contents (\<sigma> h)) then EIO else io_EOF))"

text \<open>The store after the cursor of the handle moved forward by \<open>k\<close>.\<close>

definition advance :: "store \<Rightarrow> nat option \<Rightarrow> nat \<Rightarrow> store" where
  "advance \<sigma> fp k =
     (case fp of None \<Rightarrow> \<sigma> | Some h \<Rightarrow> \<sigma>(h := (\<sigma> h)\<lparr>cursor := cursor (\<sigma> h) + k\<rparr>))"

text \<open>The bytes a buffered reader will deliver: its buffer, then those of the handle.\<close>

definition stream :: "bufio_Reader \<Rightarrow> store \<Rightarrow> byte list" where
  "stream b \<sigma> = rbuf b @ readable \<sigma> (rd b)"

text \<open>
  The state of a buffered reader between two calls: no error is pending and the buffer
  is within its size.
\<close>

definition reader_inv :: "bufio_Reader \<Rightarrow> bool" where
  "reader_inv b = (rerr b = None \<and> length (rbuf b) \<le> defaultBufSize)"

text \<open>
  The stream has ended cleanly: nothing is buffered, and the pending error, or else the
  next read of the handle, is \<^const>\<open>io_EOF\<close>.
\<close>

definition clean_end :: "bufio_Reader \<Rightarrow> store \<Rightarrow> bool" where
  "clean_end b \<sigma> =
     (rbuf b = [] \<and>
      (case rerr b of
         Some e \<Rightarrow> e = io_EOF
       | None \<Rightarrow> readable \<sigma> (rd b) = [] \<and> read_end \<sigma> (rd b) = io_EOF))"



subsection \<open>Sequences of writes\<close>

text \<open>
  A call of one of the three write methods, the bytes it passes, and the count of bytes
  the call reports as written (\<^verbatim>\<open>WriteByte\<close> returns only an error: one byte when it is
  \<^verbatim>\<open>nil\<close>). \<open>do_calls\<close> makes the calls in order, whatever they return, and adds up
  the counts.
\<close>

datatype wcall = Call_Write "byte list" | Call_WriteString string | Call_WriteByte byte

fun call_bytes :: "wcall \<Rightarrow> byte list" where
  "call_bytes (Call_Write p) = p"
| "call_bytes (Call_WriteString s) = s"
| "call_bytes (Call_WriteByte c) = [c]"

fun do_call :: "Writer \<Rightarrow> store \<Rightarrow> wcall \<Rightarrow> nat \<times> error option \<times> Writer \<times> store" where
  "do_call w \<sigma> (Call_Write p) = Writer_Write w \<sigma> p"
| "do_call w \<sigma> (Call_WriteString s) = Writer_WriteString w \<sigma> s"
| "do_call w \<sigma> (Call_WriteByte c) =
     (case Writer_WriteByte w \<sigma> c of
        (err, w', \<sigma>') \<Rightarrow> ((if err = None then 1 else 0), err, w', \<sigma>'))"

fun do_calls :: "Writer \<Rightarrow> store \<Rightarrow> wcall list \<Rightarrow> nat \<times> Writer \<times> store" where
  "do_calls w \<sigma> [] = (0, w, \<sigma>)"
| "do_calls w \<sigma> (c # cs) =
     (case do_call w \<sigma> c of
        (n, err, w', \<sigma>') \<Rightarrow>
          (case do_calls w' \<sigma>' cs of (m, w'', \<sigma>'') \<Rightarrow> (n + m, w'', \<sigma>'')))"

text \<open>
  The logical position of a buffered writer: the raw cursor plus the count of buffered
  bytes. A handle is healthy for writing when it is open and its device has room.
\<close>

definition wcur :: "nat option \<Rightarrow> store \<Rightarrow> nat" where
  "wcur fp \<sigma> = (case fp of None \<Rightarrow> 0 | Some h \<Rightarrow> cursor (\<sigma> h))"

definition wpos :: "bufio_Writer \<Rightarrow> store \<Rightarrow> nat" where
  "wpos b \<sigma> = wcur (wr b) \<sigma> + length (wbuf b)"

definition whealthy :: "nat option \<Rightarrow> store \<Rightarrow> bool" where
  "whealthy fp \<sigma> =
     (case fp of None \<Rightarrow> False | Some h \<Rightarrow> \<not> closed (\<sigma> h) \<and> capacity (\<sigma> h) = None)"

text \<open>
  What one operation on the buffered writer that passes \<open>len\<close> bytes and reports \<open>n\<close>
  does: it keeps the handle; when no error is recorded afterwards, none was before,
  all the bytes were taken and the logical position moved on by \<open>len\<close>; on a healthy
  handle no error arises.
\<close>

definition tracks ::
  "bufio_Writer \<Rightarrow> store \<Rightarrow> bufio_Writer \<Rightarrow> store \<Rightarrow> nat \<Rightarrow> nat \<Rightarrow> bool" where
  "tracks b \<sigma> b' \<sigma>' n len =
     (wr b' = wr b
      \<and> (werr b' = None \<longrightarrow> werr b = None \<and> n = len \<and> wpos b' \<sigma>' = wpos b \<sigma> + len)
      \<and> (werr b = None \<and> whealthy (wr b) \<sigma> \<longrightarrow> werr b' = None \<and> whealthy (wr b) \<sigma>'))"

text \<open>
  What the loop of \<^verbatim>\<open>Write\<close> and \<^verbatim>\<open>WriteString\<close> keeps, from its state with \<open>p\<close> left
  to pass and \<open>nn\<close> counted, to its result: with no error recorded afterwards, every byte
  is counted, or left to pass and fitting the buffer, and the logical position moved on by
  the bytes passed.
\<close>

definition keeps ::
  "bufio_Writer \<Rightarrow> store \<Rightarrow> byte list \<Rightarrow> nat \<Rightarrow> nat \<times> byte list \<times> bufio_Writer \<times> store \<Rightarrow> bool" where
  "keeps b \<sigma> p nn res =
     (case res of
        (nn', p', b', \<sigma>') \<Rightarrow>
          wr b' = wr b
          \<and> (werr b' = None \<longrightarrow>
                werr b = None \<and> nn' + length p' = nn + length p
                \<and> wpos b' \<sigma>' + length p' = wpos b \<sigma> + length p
                \<and> length p' \<le> Available b')
          \<and> (werr b = None \<and> whealthy (wr b) \<sigma> \<longrightarrow> werr b' = None \<and> whealthy (wr b) \<sigma>'))"

section \<open>Properties\<close>

subsection \<open>Flushing\<close>

lemma file_Write_ok:
  "file_Write fl q = (n, None, fl') \<Longrightarrow> \<not> closed fl \<and> n = length q \<and> fl' = flushed fl q"
  by (auto simp: file_Write_def flushed_def Let_def split: if_splits option.splits)

lemma bufio_Flush_ok:
  assumes "wr b = Some h" and "bufio_Flush b \<sigma> = (None, b', \<sigma>')"
  shows "werr b = None \<and> b' = b\<lparr>wbuf := []\<rparr> \<and> \<sigma>' = \<sigma>(h := flushed (\<sigma> h) (wbuf b))"
proof (cases "wbuf b = []")
  case True
  with assms show ?thesis
    by (auto simp: bufio_Flush_def flushed_def split: if_splits)
next
  case False
  obtain n e fl where w: "file_Write (\<sigma> h) (wbuf b) = (n, e, fl)"
    by (cases "file_Write (\<sigma> h) (wbuf b)")
  with assms False have "e = None"
    by (auto simp: bufio_Flush_def os_Write_def Let_def split: if_splits)
  with w file_Write_ok [of "\<sigma> h" "wbuf b" n fl] assms False show ?thesis
    by (auto simp: bufio_Flush_def os_Write_def Let_def split: if_splits)
qed

lemma bufio_Flush_err:
  "bufio_Flush b \<sigma> = (Some e, b', \<sigma>') \<Longrightarrow> werr b' = Some e \<and> wr b' = wr b"
  by (auto simp: bufio_Flush_def Let_def split: if_splits prod.splits)

lemma file_Close_closed:
  "file_Close fl = (e, fl') \<Longrightarrow> closed fl' \<and> contents fl' = contents fl"
  by (auto simp: file_Close_def split: if_splits)

subsection \<open>Writer.Close\<close>

text \<open>
  C7. \<^const>\<open>Writer_Close\<close> flushes the buffered bytes, then releases the handle, which is
  closed afterwards with the bytes the flush left in it. When the flush fails its error
  is the one returned, whatever the release reports; when the flush succeeds the outcome
  of the release is returned.
\<close>

theorem Writer_Close_reports_flush_first:
  assumes "bufio_Flush (w_w w) \<sigma> = (ferr, b, \<sigma>1)"
    and "os_Close \<sigma>1 (w_f w) = (cerr, \<sigma>2)"
  shows "Writer_Close w \<sigma>
      = ((case ferr of Some e \<Rightarrow> Some e | None \<Rightarrow> cerr), w\<lparr>w_w := b\<rparr>, \<sigma>2)
    \<and> (\<forall>h. w_f w = Some h \<longrightarrow> closed (\<sigma>2 h) \<and> contents (\<sigma>2 h) = contents (\<sigma>1 h))"
proof -
  have "Writer_Close w \<sigma>
      = ((case ferr of Some e \<Rightarrow> Some e | None \<Rightarrow> cerr), w\<lparr>w_w := b\<rparr>, \<sigma>2)"
    using assms by (cases ferr) (simp_all add: Writer_Close_def)
  moreover have "closed (\<sigma>2 h) \<and> contents (\<sigma>2 h) = contents (\<sigma>1 h)" if "w_f w = Some h" for h
  proof -
    obtain e fl where c: "file_Close (\<sigma>1 h) = (e, fl)" by (cases "file_Close (\<sigma>1 h)")
    with assms(2) that have "\<sigma>2 = \<sigma>1(h := fl)" by (simp add: os_Close_def)
    with file_Close_closed [OF c] show ?thesis by simp
  qed
  ultimately show ?thesis by blast
qed

theorem Writer_Close_reports_flush_first_witness:
  "fst (bufio_Flush \<lparr>wr = Some 0, wbuf = ''x'', werr = None\<rparr>
            (\<lambda>h. (new_file [])\<lparr>capacity := Some 0, close_fault := True\<rparr>)) = Some ENOSPC
   \<and> fst (os_Close (\<lambda>h. (new_file [])\<lparr>capacity := Some 0, close_fault := True\<rparr>) (Some 0))
       = Some EIO
   \<and> (case Writer_Close \<lparr>w_f = Some 0, w_w = \<lparr>wr = Some 0, wbuf = ''x'', werr = None\<rparr>\<rparr>
            (\<lambda>h. (new_file [])\<lparr>capacity := Some 0, close_fault := True\<rparr>) of
         (err, w', \<sigma>') \<Rightarrow> err = Some ENOSPC \<and> closed (\<sigma>' 0))"
proof -
  let ?b = "\<lparr>wr = Some 0, wbuf = ''x'', werr = None\<rparr>"
  let ?w = "\<lparr>w_f = Some 0, w_w = ?b\<rparr>"
  let ?fl = "(new_file [])\<lparr>capacity := Some 0, close_fault := True\<rparr>"
  let ?s = "\<lambda>h::nat. ?fl"
  have fl: "bufio_Flush (w_w ?w) ?s
      = (Some ENOSPC, \<lparr>wr = Some 0, wbuf = ''x'', werr = Some ENOSPC\<rparr>, ?s)"
    by (simp add: bufio_Flush_def os_Write_def file_Write_def new_file_def Let_def fun_eq_iff)
  have cl: "os_Close ?s (w_f ?w) = (Some EIO, ?s(0 := ?fl\<lparr>closed := True\<rparr>))"
    by (simp add: os_Close_def file_Close_def new_file_def)
  from Writer_Close_reports_flush_first [OF fl cl] fl cl show ?thesis by simp
qed

subsection \<open>Writer.Seek\<close>

lemma file_Seek_ok:
  "file_Seek fl offset whence = Inr (pos, fl') \<Longrightarrow>
     \<not> closed fl \<and> fl' = fl\<lparr>cursor := nat pos\<rparr> \<and> 0 \<le> pos \<and> pos \<le> maxInt64
     \<and> pos = (if whence = 0 then offset
              else if whence = 1 then int (cursor fl) + offset
              else int (length (contents fl)) + offset)
     \<and> (whence = 0 \<or> whence = 1 \<or> whence = 2)"
  by (auto simp: file_Seek_def Let_def split: if_splits)

text \<open>
  C3. For a Writer on the handle \<open>h\<close> and every \<open>whence\<close>, \<^const>\<open>Writer_Seek\<close> first
  flushes. A failed flush is fatal. After a flush that succeeds the buffer is empty and
  its bytes are in the file at the old cursor; then the handle is sought. A failed seek
  (also for a \<open>whence\<close> other than 0, 1, 2) is fatal; otherwise the position returned is
  the new cursor of the handle: \<open>offset\<close> from the start, from the cursor after the
  flush, or from the end of the flushed bytes.
\<close>

theorem Writer_Seek_flushes_then_seeks:
  assumes "Writer_on h w"
  shows
    "(case bufio_Flush (w_w w) \<sigma> of
        (Some err, b, \<sigma>1) \<Rightarrow> Writer_Seek w \<sigma> offset whence = Inl (Fatal ''writing output'' err)
      | (None, b, \<sigma>1) \<Rightarrow>
          b = (w_w w)\<lparr>wbuf := []\<rparr> \<and> \<sigma>1 = \<sigma>(h := flushed (\<sigma> h) (wbuf (w_w w))) \<and>
          (case file_Seek (\<sigma>1 h) offset whence of
             Inl err \<Rightarrow> Writer_Seek w \<sigma> offset whence = Inl (Fatal ''seeking in output'' err)
           | Inr (pos, fl) \<Rightarrow>
               Writer_Seek w \<sigma> offset whence = Inr (pos, w\<lparr>w_w := b\<rparr>, \<sigma>1(h := fl))
               \<and> pos = int (cursor fl) \<and> contents fl = contents (\<sigma>1 h)
               \<and> pos = (if whence = 0 then offset
                        else if whence = 1 then int (cursor (\<sigma>1 h)) + offset
                        else int (length (contents (\<sigma>1 h))) + offset)))"
proof -
  obtain ferr b \<sigma>1 where f: "bufio_Flush (w_w w) \<sigma> = (ferr, b, \<sigma>1)"
    by (cases "bufio_Flush (w_w w) \<sigma>")
  from assms have wr: "wr (w_w w) = Some h" and wf: "w_f w = Some h"
    by (simp_all add: Writer_on_def)
  show ?thesis
  proof (cases ferr)
    case (Some err)
    with f show ?thesis by (simp add: Writer_Seek_def)
  next
    case None
    with f have f': "bufio_Flush (w_w w) \<sigma> = (None, b, \<sigma>1)" by simp
    note ok = bufio_Flush_ok [OF wr f']
    show ?thesis
    proof (cases "file_Seek (\<sigma>1 h) offset whence")
      case (Inl err)
      with f' ok wf show ?thesis by (simp add: Writer_Seek_def os_Seek_def)
    next
      case (Inr res)
      obtain pos fl where res: "res = (pos, fl)" by (cases res)
      from Inr res have s: "file_Seek (\<sigma>1 h) offset whence = Inr (pos, fl)" by simp
      from file_Seek_ok [OF s] have "pos = int (cursor fl) \<and> contents fl = contents (\<sigma>1 h)
        \<and> pos = (if whence = 0 then offset
                 else if whence = 1 then int (cursor (\<sigma>1 h)) + offset
                 else int (length (contents (\<sigma>1 h))) + offset)"
        by simp
      with f' ok wf s show ?thesis by (auto simp: Writer_Seek_def os_Seek_def)
    qed
  qed
qed

theorem Writer_Seek_flushes_then_seeks_witness:
  "Writer_on 0 \<lparr>w_f = Some 0, w_w = \<lparr>wr = Some 0, wbuf = ''xy'', werr = None\<rparr>\<rparr>
   \<and> Writer_Seek \<lparr>w_f = Some 0, w_w = \<lparr>wr = Some 0, wbuf = ''xy'', werr = None\<rparr>\<rparr>
        (\<lambda>h. new_file ''abcdef'') 1 1
      = Inr (3, \<lparr>w_f = Some 0, w_w = \<lparr>wr = Some 0, wbuf = [], werr = None\<rparr>\<rparr>,
             (\<lambda>h. new_file ''abcdef'')(0 := (new_file ''xycdef'')\<lparr>cursor := 3\<rparr>))"
proof -
  let ?w = "\<lparr>w_f = Some 0, w_w = \<lparr>wr = Some 0, wbuf = ''xy'', werr = None\<rparr>\<rparr>"
  let ?s = "\<lambda>h::nat. new_file ''abcdef''"
  have on: "Writer_on 0 ?w" by (simp add: Writer_on_def)
  have fl: "bufio_Flush (w_w ?w) ?s
      = (None, \<lparr>wr = Some 0, wbuf = [], werr = None\<rparr>, ?s(0 := (new_file ''xycdef'')\<lparr>cursor := 2\<rparr>))"
    by (simp add: bufio_Flush_def os_Write_def file_Write_def new_file_def Let_def write_at_def
        eval_nat_numeral)
  have sk: "file_Seek ((new_file ''xycdef'')\<lparr>cursor := 2\<rparr>) 1 1
      = Inr (3, (new_file ''xycdef'')\<lparr>cursor := 3\<rparr>)"
    by (simp add: file_Seek_def new_file_def Let_def maxInt64_def)
  from Writer_Seek_flushes_then_seeks [OF on, of ?s 1 1] on fl sk show ?thesis
    by simp
qed

subsection \<open>Reads of the handle, in terms of the bytes still to deliver\<close>

lemma advance_0 [simp]: "advance \<sigma> fp 0 = \<sigma>"
  by (cases fp) (simp_all add: advance_def)

lemma advance_advance [simp]: "advance (advance \<sigma> fp j) fp k = advance \<sigma> fp (j + k)"
  by (cases fp) (simp_all add: advance_def add.assoc)

lemma readable_advance:
  "k \<le> length (readable \<sigma> fp) \<Longrightarrow> readable (advance \<sigma> fp k) fp = drop k (readable \<sigma> fp)"
  by (cases fp) (auto simp: readable_def advance_def add.commute split: option.splits)

lemma read_end_advance:
  "k \<le> length (readable \<sigma> fp) \<Longrightarrow> read_end (advance \<sigma> fp k) fp = read_end \<sigma> fp"
  by (cases fp) (auto simp: readable_def read_end_def advance_def split: option.splits if_splits)

lemma file_Read_eq:
  assumes "0 < n"
  shows "file_Read (\<sigma> h) n =
    (take n (readable \<sigma> (Some h)),
     (if readable \<sigma> (Some h) = [] then Some (read_end \<sigma> (Some h)) else None),
     (\<sigma> h)\<lparr>cursor := cursor (\<sigma> h) + length (take n (readable \<sigma> (Some h)))\<rparr>)"
  using assms
  by (auto simp: file_Read_def readable_def read_end_def Let_def split: option.splits)

lemma os_Read_eq:
  assumes "0 < n"
  shows "os_Read \<sigma> fp n =
    (take n (readable \<sigma> fp),
     (if readable \<sigma> fp = [] then Some (read_end \<sigma> fp) else None),
     advance \<sigma> fp (length (take n (readable \<sigma> fp))))"
proof (cases fp)
  case None
  then show ?thesis by (simp add: os_Read_def readable_def read_end_def)
next
  case (Some h)
  with file_Read_eq [OF assms, of \<sigma> h] show ?thesis
    by (simp add: os_Read_def advance_def)
qed

lemma fill_eq:
  assumes "length (rbuf b) < defaultBufSize"
  shows "fill b \<sigma> =
    (b\<lparr>rbuf := rbuf b @ take (defaultBufSize - length (rbuf b)) (readable \<sigma> (rd b)),
       rerr := (if readable \<sigma> (rd b) = [] then Some (read_end \<sigma> (rd b)) else rerr b)\<rparr>,
     advance \<sigma> (rd b) (length (take (defaultBufSize - length (rbuf b)) (readable \<sigma> (rd b)))))"
proof -
  from assms have "0 < defaultBufSize - length (rbuf b)" by simp
  from os_Read_eq [OF this, of \<sigma> "rd b"] assms show ?thesis
    by (simp add: fill_def)
qed

subsection \<open>Bgetc\<close>

lemma of_char_int_range: "0 \<le> (of_char c :: int) \<and> (of_char c :: int) \<le> 255"
proof -
  have "(of_char c :: int) = int (of_char c)" by (simp add: of_nat_of_char)
  moreover have "(of_char c :: nat) < 256" by simp
  ultimately show ?thesis by linarith
qed

lemma defaultBufSize_pos: "0 < defaultBufSize"
  by (simp add: defaultBufSize_def)

lemma ReadByte_eq:
  "ReadByte b \<sigma> =
     (case rbuf b of
        c # rest \<Rightarrow> (c, None, b\<lparr>rbuf := rest\<rparr>, \<sigma>)
      | [] \<Rightarrow>
          (case rerr b of
             Some e \<Rightarrow> (CHR 0x00, Some e, b\<lparr>rerr := None\<rparr>, \<sigma>)
           | None \<Rightarrow>
               (case take defaultBufSize (readable \<sigma> (rd b)) of
                  [] \<Rightarrow> (CHR 0x00, Some (read_end \<sigma> (rd b)), b, \<sigma>)
                | c # rest \<Rightarrow>
                    (c, None, b\<lparr>rbuf := rest\<rparr>,
                     advance \<sigma> (rd b) (Suc (length rest))))))"
proof (cases "rbuf b")
  case (Cons c rest)
  then show ?thesis by (simp add: ReadByte_def)
next
  case Nil
  note nil = Nil
  show ?thesis
  proof (cases "rerr b")
    case (Some e)
    with nil show ?thesis by (simp add: ReadByte_def readErr_def)
  next
    case None
    from nil defaultBufSize_pos have "length (rbuf b) < defaultBufSize" by simp
    note f = fill_eq [OF this, of \<sigma>]
    show ?thesis
    proof (cases "take defaultBufSize (readable \<sigma> (rd b))")
      case Nil
      with defaultBufSize_pos have "readable \<sigma> (rd b) = []" by (cases "readable \<sigma> (rd b)") auto
      with nil None f show ?thesis by (simp add: ReadByte_def readErr_def)
    next
      case (Cons c rest)
      then have "readable \<sigma> (rd b) \<noteq> []" by auto
      with nil None f Cons show ?thesis
        by (simp add: ReadByte_def)
    qed
  qed
qed

text \<open>
  C5. When the stream has ended cleanly \<^const>\<open>Bgetc\<close> returns the sentinel
  \<^const>\<open>EOF\<close>, which is \<open>- 1\<close>. Otherwise it either returns the next byte of the stream
  as a value from 0 to 255, or it aborts: the buffer is empty and the cause is the
  pending error or the error of the read of the handle, and that cause is not
  \<^const>\<open>io_EOF\<close>.
\<close>

theorem Bgetc_byte_or_EOF:
  "EOF = - 1 \<and>
   (if clean_end (r_r r) \<sigma> then (\<exists>r' \<sigma>'. Bgetc r \<sigma> = Inr (EOF, r', \<sigma>'))
    else
      (case Bgetc r \<sigma> of
         Inr (c, r', \<sigma>') \<Rightarrow>
           0 \<le> c \<and> c \<le> 255 \<and> stream (r_r r) \<sigma> \<noteq> [] \<and> c = of_char (hd (stream (r_r r) \<sigma>))
       | Inl a \<Rightarrow>
           rbuf (r_r r) = [] \<and>
           (\<exists>e. e \<noteq> io_EOF \<and> a = Fatal ''reading input'' e \<and>
              (case rerr (r_r r) of
                 Some e' \<Rightarrow> e = e'
               | None \<Rightarrow> readable \<sigma> (rd (r_r r)) = [] \<and> e = read_end \<sigma> (rd (r_r r))))))"
proof -
  let ?b = "r_r r"
  have "EOF = - 1" by (simp add: EOF_def)
  moreover have "if clean_end ?b \<sigma> then (\<exists>r' \<sigma>'. Bgetc r \<sigma> = Inr (EOF, r', \<sigma>'))
    else
      (case Bgetc r \<sigma> of
         Inr (c, r', \<sigma>') \<Rightarrow>
           0 \<le> c \<and> c \<le> 255 \<and> stream ?b \<sigma> \<noteq> [] \<and> c = of_char (hd (stream ?b \<sigma>))
       | Inl a \<Rightarrow>
           rbuf ?b = [] \<and>
           (\<exists>e. e \<noteq> io_EOF \<and> a = Fatal ''reading input'' e \<and>
              (case rerr ?b of
                 Some e' \<Rightarrow> e = e'
               | None \<Rightarrow> readable \<sigma> (rd ?b) = [] \<and> e = read_end \<sigma> (rd ?b))))"
  proof (cases "rbuf ?b")
    case (Cons c rest)
    with of_char_int_range [of c] show ?thesis
      by (simp add: Bgetc_def ReadByte_eq clean_end_def stream_def)
  next
    case Nil
    note nil = Nil
    show ?thesis
    proof (cases "rerr ?b")
      case (Some e)
      with nil show ?thesis
        by (simp add: Bgetc_def ReadByte_eq clean_end_def)
    next
      case None
      show ?thesis
      proof (cases "readable \<sigma> (rd ?b)")
        case Nil
        with nil None show ?thesis
          by (simp add: Bgetc_def ReadByte_eq clean_end_def)
      next
        case (Cons c rest)
        with defaultBufSize_pos have
          "take defaultBufSize (readable \<sigma> (rd ?b)) = c # take (defaultBufSize - 1) rest"
          by (simp add: take_Cons')
        with nil None Cons of_char_int_range [of c] show ?thesis
          by (simp add: Bgetc_def ReadByte_eq clean_end_def stream_def)
      qed
    qed
  qed
  ultimately show ?thesis by blast
qed

subsection \<open>Read, in terms of the bytes still to deliver\<close>

lemma reader_inv_rerr: "reader_inv b \<Longrightarrow> b\<lparr>rerr := None\<rparr> = b"
  by (simp add: reader_inv_def)

lemma drop_take_drop:
  assumes "n \<le> m"
  shows "drop n (take m xs) @ drop m xs = drop n xs"
proof -
  from assms obtain k where m: "m = n + k" using le_Suc_ex by blast
  have a: "drop n (take (n + k) xs) = take k (drop n xs)" by (simp add: drop_take)
  have b: "drop (n + k) xs = drop k (drop n xs)" by (simp add: add.commute)
  show ?thesis unfolding m a b by (rule append_take_drop_id)
qed

lemma bufio_Read_eq:
  assumes "reader_inv b" and "p \<noteq> []"
  shows "bufio_Read b \<sigma> p =
    (if rbuf b \<noteq> [] then
       (min (length p) (length (rbuf b)), None,
        take (min (length p) (length (rbuf b))) (rbuf b) @ drop (min (length p) (length (rbuf b))) p,
        b\<lparr>rbuf := drop (min (length p) (length (rbuf b))) (rbuf b)\<rparr>, \<sigma>)
     else if readable \<sigma> (rd b) = [] then (0, Some (read_end \<sigma> (rd b)), p, b, \<sigma>)
     else if defaultBufSize \<le> length p then
       (length (take (length p) (readable \<sigma> (rd b))), None,
        take (length p) (readable \<sigma> (rd b)) @ drop (length (take (length p) (readable \<sigma> (rd b)))) p,
        b, advance \<sigma> (rd b) (length (take (length p) (readable \<sigma> (rd b)))))
     else
       (min (length p) (length (take defaultBufSize (readable \<sigma> (rd b)))), None,
        take (length p) (take defaultBufSize (readable \<sigma> (rd b)))
          @ drop (min (length p) (length (take defaultBufSize (readable \<sigma> (rd b))))) p,
        b\<lparr>rbuf := drop (length p) (take defaultBufSize (readable \<sigma> (rd b)))\<rparr>,
        advance \<sigma> (rd b) (length (take defaultBufSize (readable \<sigma> (rd b))))))"
proof -
  from assms(1) have e: "rerr b = None" by (simp add: reader_inv_def)
  from assms(2) have lp: "0 < length p" by simp
  show ?thesis
  proof (cases "rbuf b = []")
    case False
    with assms(2) e show ?thesis
      by (simp add: bufio_Read_def copy_def Let_def min_def)
  next
    case True
    note nil = True
    then have lt: "length (rbuf b) < defaultBufSize" using defaultBufSize_pos by simp
    show ?thesis
    proof (cases "defaultBufSize \<le> length p")
      case True
      with nil e assms(2) os_Read_eq [OF lp, of \<sigma> "rd b"] reader_inv_rerr [OF assms(1)]
      show ?thesis
        by (simp add: bufio_Read_def readErr_def)
    next
      case False
      show ?thesis
      proof (cases "readable \<sigma> (rd b) = []")
        case True
        with nil e assms(2) False fill_eq [OF lt, of \<sigma>] reader_inv_rerr [OF assms(1)]
        show ?thesis
          by (simp add: bufio_Read_def readErr_def)
      next
        case rn: False
        then have "take defaultBufSize (readable \<sigma> (rd b)) \<noteq> []"
          using defaultBufSize_pos by (cases "readable \<sigma> (rd b)") (auto simp: take_Cons')
        with nil e assms(2) False rn fill_eq [OF lt, of \<sigma>] show ?thesis
          by (simp add: bufio_Read_def copy_def Let_def min_def)
      qed
    qed
  qed
qed
lemma bufio_Read_stream:
  assumes "reader_inv b" and "p \<noteq> []" and "bufio_Read b \<sigma> p = (nn, e, p', b', \<sigma>')"
  shows "reader_inv b' \<and> rd b' = rd b \<and> read_end \<sigma>' (rd b) = read_end \<sigma> (rd b)
    \<and> nn \<le> length p \<and> nn \<le> length (stream b \<sigma>)
    \<and> p' = take nn (stream b \<sigma>) @ drop nn p
    \<and> stream b' \<sigma>' = drop nn (stream b \<sigma>)
    \<and> (if stream b \<sigma> = [] then nn = 0 \<and> e = Some (read_end \<sigma> (rd b)) else 0 < nn \<and> e = None)"
proof (cases "rbuf b \<noteq> []")
  case True
  let ?n = "min (length p) (length (rbuf b))"
  have "bufio_Read b \<sigma> p = (?n, None, take ?n (rbuf b) @ drop ?n p, b\<lparr>rbuf := drop ?n (rbuf b)\<rparr>, \<sigma>)"
    using True bufio_Read_eq [OF assms(1,2), of \<sigma>] by simp
  with assms(3) [symmetric] have "(nn, e, p', b', \<sigma>') = (?n, None, take ?n (rbuf b) @ drop ?n p, b\<lparr>rbuf := drop ?n (rbuf b)\<rparr>, \<sigma>)"
    by (rule trans)
  then have r: "nn = ?n" "e = None" "p' = take ?n (rbuf b) @ drop ?n p"
    "b' = b\<lparr>rbuf := drop ?n (rbuf b)\<rparr>" "\<sigma>' = \<sigma>"
    by simp_all
  from True assms(2) have "0 < ?n" by (cases "rbuf b"; cases p) auto
  with r True assms(1) show ?thesis
    by (auto simp: stream_def reader_inv_def)
next
  case False
  then have nil: "rbuf b = []" by simp
  show ?thesis
  proof (cases "readable \<sigma> (rd b) = []")
    case True
    have "bufio_Read b \<sigma> p = (0, Some (read_end \<sigma> (rd b)), p, b, \<sigma>)"
      using True nil bufio_Read_eq [OF assms(1,2), of \<sigma>] by simp
    with assms(3) [symmetric] have "(nn, e, p', b', \<sigma>') = (0, Some (read_end \<sigma> (rd b)), p, b, \<sigma>)"
      by (rule trans)
    with True nil assms(1) show ?thesis
      by (simp add: stream_def)
  next
    case rn: False
    show ?thesis
    proof (cases "defaultBufSize \<le> length p")
      case True
      let ?d = "take (length p) (readable \<sigma> (rd b))"
      have k: "length ?d \<le> length (readable \<sigma> (rd b))" by simp
      have "bufio_Read b \<sigma> p = (length ?d, None, ?d @ drop (length ?d) p, b, advance \<sigma> (rd b) (length ?d))"
        using nil rn True bufio_Read_eq [OF assms(1,2), of \<sigma>] by simp
      with assms(3) [symmetric] have "(nn, e, p', b', \<sigma>') = (length ?d, None, ?d @ drop (length ?d) p, b, advance \<sigma> (rd b) (length ?d))"
        by (rule trans)
      then have r: "nn = length ?d" "e = None" "b' = b" "\<sigma>' = advance \<sigma> (rd b) (length ?d)"
        "p' = ?d @ drop (length ?d) p"
        by simp_all
      from rn assms(2) have "0 < length ?d" by (cases "readable \<sigma> (rd b)"; cases p) auto
      moreover have "stream b' \<sigma>' = drop (length ?d) (stream b \<sigma>)"
        using r nil readable_advance [OF k] by (simp add: stream_def)
      moreover have "?d = take (length ?d) (stream b \<sigma>)"
        using nil by (auto simp: stream_def min_def)
      moreover have "length ?d \<le> length p" by simp
      moreover have "length ?d \<le> length (stream b \<sigma>)" using nil by (simp add: stream_def)
      ultimately show ?thesis
        using r nil rn assms(1) read_end_advance [OF k] by (simp add: stream_def)
    next
      case False
      let ?d = "take defaultBufSize (readable \<sigma> (rd b))"
      let ?n = "min (length p) (length ?d)"
      have k: "length ?d \<le> length (readable \<sigma> (rd b))" by simp
      have "bufio_Read b \<sigma> p = (?n, None, take (length p) ?d @ drop ?n p,
          b\<lparr>rbuf := drop (length p) ?d\<rparr>, advance \<sigma> (rd b) (length ?d))"
        using nil rn False bufio_Read_eq [OF assms(1,2), of \<sigma>] by simp
      with assms(3) [symmetric] have "(nn, e, p', b', \<sigma>') = (?n, None, take (length p) ?d @ drop ?n p,
          b\<lparr>rbuf := drop (length p) ?d\<rparr>, advance \<sigma> (rd b) (length ?d))"
        by (rule trans)
      then have r: "nn = ?n" "e = None" "b' = b\<lparr>rbuf := drop (length p) ?d\<rparr>"
        "\<sigma>' = advance \<sigma> (rd b) (length ?d)"
        "p' = take (length p) ?d @ drop ?n p"
        by simp_all
      from rn defaultBufSize_pos have dn: "?d \<noteq> []"
        by (cases "readable \<sigma> (rd b)") (auto simp: take_Cons')
      with assms(2) have npos: "0 < ?n" by (cases ?d; cases p) auto
      have i: "reader_inv b'" using r assms(1) by (simp add: reader_inv_def)
      have lp: "length p \<le> defaultBufSize" using False by simp
      have s: "stream b' \<sigma>' = drop ?n (stream b \<sigma>)"
      proof -
        have "stream b' \<sigma>' = drop (length p) ?d @ drop (length ?d) (readable \<sigma> (rd b))"
          using r readable_advance [OF k] by (simp add: stream_def)
        also have "\<dots> = drop (length p) ?d @ drop defaultBufSize (readable \<sigma> (rd b))"
          by (simp add: min_def)
        also have "\<dots> = drop (length p) (readable \<sigma> (rd b))"
          by (rule drop_take_drop [OF lp])
        also have "\<dots> = drop ?n (stream b \<sigma>)"
          using nil lp by (auto simp: stream_def min_def)
        finally show ?thesis .
      qed
      have t: "take (length p) ?d = take ?n (stream b \<sigma>)"
        using nil lp by (auto simp: stream_def min_def)
      have l1: "?n \<le> length p" by simp
      have l2: "?n \<le> length (stream b \<sigma>)" using nil by (simp add: stream_def)
      have re: "read_end \<sigma>' (rd b) = read_end \<sigma> (rd b)" using r read_end_advance [OF k] by simp
      have rd: "rd b' = rd b" using r by simp
      have ne: "stream b \<sigma> \<noteq> []" using rn by (simp add: stream_def)
      from i rd re l1 l2 s t npos ne r(1,2,5) show ?thesis
        by simp
    qed
  qed
qed
lemma ReadFull_loop_stream:
  "ReadFull_loop b \<sigma> buf n err = (n', e, buf', b', \<sigma>') \<Longrightarrow> err = None \<Longrightarrow> reader_inv b \<Longrightarrow>
   n \<le> length buf \<Longrightarrow>
     n' = n + min (length buf - n) (length (stream b \<sigma>))
     \<and> buf' = take n buf @ take (n' - n) (stream b \<sigma>) @ drop n' buf
     \<and> stream b' \<sigma>' = drop (n' - n) (stream b \<sigma>)
     \<and> reader_inv b' \<and> rd b' = rd b \<and> read_end \<sigma>' (rd b) = read_end \<sigma> (rd b)
     \<and> e = (if n' < length buf then Some (read_end \<sigma> (rd b)) else None)"
proof (induction b \<sigma> buf n err arbitrary: n' e buf' b' \<sigma>' rule: ReadFull_loop.induct)
  case (1 b \<sigma> buf n err)
  note prems = "1.prems"
  show ?case
  proof (cases "n < length buf")
    case False
    with prems have "n = length buf" by simp
    with prems show ?thesis
      by (subst (asm) ReadFull_loop.simps) auto
  next
    case True
    let ?p = "drop n buf"
    let ?S = "stream b \<sigma>"
    from True have pn: "?p \<noteq> []" by simp
    obtain nn e1 p1 b1 \<sigma>1 where rd: "bufio_Read b \<sigma> ?p = (nn, e1, p1, b1, \<sigma>1)"
      by (cases "bufio_Read b \<sigma> ?p") auto
    note st = bufio_Read_stream [OF prems(3) pn rd]
    from prems(1,2) True rd
    have loop: "ReadFull_loop b1 \<sigma>1 (take n buf @ p1) (n + nn) e1 = (n', e, buf', b', \<sigma>')"
      by (subst (asm) ReadFull_loop.simps) simp
    show ?thesis
    proof (cases "?S = []")
      case True
      with st have z: "nn = 0" "e1 = Some (read_end \<sigma> (rd b))" "p1 = ?p" by simp_all
      with loop have "(n', e, buf', b', \<sigma>') = (n, e1, buf, b1, \<sigma>1)"
        by (subst (asm) ReadFull_loop.simps) simp
      with z st True \<open>n < length buf\<close> show ?thesis by simp
    next
      case False
      with st have z: "0 < nn" "e1 = None" by simp_all
      from st have p1: "p1 = take nn ?S @ drop nn ?p" and nl: "nn \<le> length ?p" and ns: "nn \<le> length ?S"
        and s1: "stream b1 \<sigma>1 = drop nn ?S" and i1: "reader_inv b1" and r1: "rd b1 = rd b"
        and e1: "read_end \<sigma>1 (rd b) = read_end \<sigma> (rd b)"
        by simp_all
      let ?buf1 = "take n buf @ p1"
      from nl prems(4) have lb: "length ?buf1 = length buf" using p1 ns by simp
      from nl True have le: "n + nn \<le> length ?buf1" using lb by simp
      from True prems(2) have c: "n < length buf \<and> err = None" by simp
      note ih = "1.IH" [OF c rd [symmetric] refl refl refl loop z(2) i1 le]
      from ih have n': "n' = n + nn + min (length buf - (n + nn)) (length ?S - nn)"
        using lb s1 by simp
      then have nn': "n' - n = nn + (n' - (n + nn))" by simp
      from nl have nl': "nn \<le> length buf - n" by simp
      have k: "n' = n + min (length buf - n) (length ?S)"
        using n' nl' ns True by arith
      have b1: "take (n + nn) ?buf1 = take n buf @ take nn ?S"
        using prems(4) ns p1 by simp
      have b2: "drop n' ?buf1 = drop n' buf"
      proof -
        have "n + nn \<le> n'" using n' by simp
        then obtain j where j: "n' = n + nn + j" using le_Suc_ex by blast
        show ?thesis unfolding j p1 using prems(4) ns by (simp add: add.commute add.left_commute)
      qed
      have b3: "take nn ?S @ take (n' - (n + nn)) (drop nn ?S) = take (n' - n) ?S"
        unfolding nn' by (simp add: take_add)
      have b4: "drop (n' - (n + nn)) (drop nn ?S) = drop (n' - n) ?S"
        unfolding nn' by (simp add: add.commute)
      from ih have buf': "buf' = take (n + nn) ?buf1 @ take (n' - (n + nn)) (stream b1 \<sigma>1) @ drop n' ?buf1"
        and s': "stream b' \<sigma>' = drop (n' - (n + nn)) (stream b1 \<sigma>1)"
        and i': "reader_inv b'" and r': "rd b' = rd b1"
        and e': "read_end \<sigma>' (rd b1) = read_end \<sigma>1 (rd b1)"
        and ee: "e = (if n' < length ?buf1 then Some (read_end \<sigma>1 (rd b1)) else None)"
        by simp_all
      have "buf' = take n buf @ take (n' - n) ?S @ drop n' buf"
        using buf' b1 b2 b3 s1 by simp
      moreover have "stream b' \<sigma>' = drop (n' - n) ?S" using s' s1 b4 by simp
      moreover have "e = (if n' < length buf then Some (read_end \<sigma> (rd b)) else None)"
        using ee lb r1 e1 by simp
      moreover have "read_end \<sigma>' (rd b) = read_end \<sigma> (rd b)" using e' e1 r1 by simp
      ultimately show ?thesis using k i' r' r1 by simp
    qed
  qed
qed
lemma io_ReadFull_stream:
  assumes "reader_inv b" and "io_ReadFull b \<sigma> buf = (n, e, buf', b', \<sigma>')"
  shows "n = min (length buf) (length (stream b \<sigma>))
     \<and> buf' = take n (stream b \<sigma>) @ drop n buf
     \<and> stream b' \<sigma>' = drop n (stream b \<sigma>)
     \<and> reader_inv b' \<and> rd b' = rd b \<and> read_end \<sigma>' (rd b) = read_end \<sigma> (rd b)
     \<and> e = (if length buf \<le> n then None
            else if 0 < n \<and> read_end \<sigma> (rd b) = io_EOF then Some ErrUnexpectedEOF
            else Some (read_end \<sigma> (rd b)))"
proof -
  obtain n1 e1 buf1 b1 \<sigma>1 where l: "ReadFull_loop b \<sigma> buf 0 None = (n1, e1, buf1, b1, \<sigma>1)"
    by (cases "ReadFull_loop b \<sigma> buf 0 None") auto
  from ReadFull_loop_stream [OF l refl assms(1)]
  have s: "n1 = min (length buf) (length (stream b \<sigma>))"
    "buf1 = take n1 (stream b \<sigma>) @ drop n1 buf"
    "stream b1 \<sigma>1 = drop n1 (stream b \<sigma>)"
    "reader_inv b1" "rd b1 = rd b" "read_end \<sigma>1 (rd b) = read_end \<sigma> (rd b)"
    "e1 = (if n1 < length buf then Some (read_end \<sigma> (rd b)) else None)"
    by simp_all
  from assms(2) l have r: "n = n1" "buf' = buf1" "b' = b1" "\<sigma>' = \<sigma>1"
    "e = (if length buf \<le> n1 then None
          else if 0 < n1 \<and> e1 = Some io_EOF then Some ErrUnexpectedEOF else e1)"
    by (auto simp: io_ReadFull_def)
  have "e = (if length buf \<le> n then None
            else if 0 < n \<and> read_end \<sigma> (rd b) = io_EOF then Some ErrUnexpectedEOF
            else Some (read_end \<sigma> (rd b)))"
    using r(1,5) s(7) by auto
  with r s show ?thesis by simp
qed

lemma Bread_stream:
  assumes "reader_inv (r_r r)" and "Bread r \<sigma> p = (res, p', r', \<sigma>')"
  shows "res = (if min (length p) (length (stream (r_r r) \<sigma>)) = 0 \<and> p \<noteq> []
                  \<and> read_end \<sigma> (rd (r_r r)) \<noteq> io_EOF
                then - 1 else int (min (length p) (length (stream (r_r r) \<sigma>))))
     \<and> p' = take (length p) (stream (r_r r) \<sigma>) @ drop (length (stream (r_r r) \<sigma>)) p
     \<and> stream (r_r r') \<sigma>' = drop (length p) (stream (r_r r) \<sigma>)
     \<and> reader_inv (r_r r') \<and> rd (r_r r') = rd (r_r r) \<and> r_f r' = r_f r
     \<and> read_end \<sigma>' (rd (r_r r)) = read_end \<sigma> (rd (r_r r))"
proof -
  let ?S = "stream (r_r r) \<sigma>"
  obtain n e buf' b' \<sigma>1 where f: "io_ReadFull (r_r r) \<sigma> p = (n, e, buf', b', \<sigma>1)"
    by (cases "io_ReadFull (r_r r) \<sigma> p") auto
  note s = io_ReadFull_stream [OF assms(1) f]
  from s have n: "n = min (length p) (length ?S)" by simp
  from assms(2) f have r: "p' = buf'" "r' = r\<lparr>r_r := b'\<rparr>" "\<sigma>' = \<sigma>1"
    "res = (if n = 0 then (if e \<noteq> None \<and> e \<noteq> Some io_EOF then - 1 else int n) else int n)"
    by (auto simp: Bread_def)
  have t: "take n ?S = take (length p) ?S" using n by (auto simp: min_def)
  have d: "drop n p = drop (length ?S) p" using n by (auto simp: min_def)
  have d2: "drop n ?S = drop (length p) ?S" using n by (auto simp: min_def)
  have "res = (if min (length p) (length ?S) = 0 \<and> p \<noteq> [] \<and> read_end \<sigma> (rd (r_r r)) \<noteq> io_EOF
                then - 1 else int (min (length p) (length ?S)))"
    using r(4) s n by (auto split: if_splits)
  with r s t d d2 show ?thesis by simp
qed

subsection \<open>Bread\<close>

text \<open>
  C6. For a Reader between two calls and a caller buffer \<open>p\<close>, \<^const>\<open>Bread\<close> fills
  \<open>p\<close> from the stream until \<open>p\<close> is full or the stream has no more bytes: with
  \<open>n\<close> the smaller of the two lengths, the first \<open>n\<close> bytes of \<open>p\<close> are the first
  \<open>n\<close> bytes of the stream, which are consumed. It returns \<open>n\<close>, except that it returns
  \<open>- 1\<close> exactly when no byte was obtained for a non-empty \<open>p\<close> and the handle's
  error is not \<^const>\<open>io_EOF\<close>.
\<close>

theorem Bread_fills_until_full_or_end:
  assumes "reader_inv (r_r r)" and "Bread r \<sigma> p = (res, p', r', \<sigma>')"
  shows "(let S = stream (r_r r) \<sigma>; n = min (length p) (length S) in
            p' = take n S @ drop n p \<and> stream (r_r r') \<sigma>' = drop n S
            \<and> (res = - 1) = (n = 0 \<and> p \<noteq> [] \<and> read_end \<sigma> (rd (r_r r)) \<noteq> io_EOF)
            \<and> res = (if n = 0 \<and> p \<noteq> [] \<and> read_end \<sigma> (rd (r_r r)) \<noteq> io_EOF then - 1 else int n))"
proof -
  let ?S = "stream (r_r r) \<sigma>"
  let ?n = "min (length p) (length ?S)"
  note s = Bread_stream [OF assms]
  have t: "take ?n ?S = take (length p) ?S" by (auto simp: min_def)
  have d: "drop ?n p = drop (length ?S) p" by (auto simp: min_def)
  have d2: "drop ?n ?S = drop (length p) ?S" by (auto simp: min_def)
  from s t d d2 show ?thesis by (simp add: Let_def)
qed

theorem Bread_fills_until_full_or_end_witness:
  "reader_inv (NewReader (Some 0))
   \<and> fst (Bread \<lparr>r_f = Some 0, r_r = NewReader (Some 0)\<rparr> (\<lambda>h. new_file ''abcd'') ''xxxxxx'') = 4
   \<and> fst (snd (Bread \<lparr>r_f = Some 0, r_r = NewReader (Some 0)\<rparr> (\<lambda>h. new_file ''abcd'') ''xxxxxx''))
       = ''abcdxx''
   \<and> fst (Bread \<lparr>r_f = Some 0, r_r = NewReader (Some 0)\<rparr> (\<lambda>h. new_file []) ''xxxxxx'') = 0
   \<and> fst (Bread \<lparr>r_f = Some 0, r_r = NewReader (Some 0)\<rparr>
            (\<lambda>h. (new_file ''abcd'')\<lparr>rd_bad := Some 0\<rparr>) ''xxxxxx'') = - 1"
proof -
  let ?r = "\<lparr>r_f = Some 0, r_r = NewReader (Some 0)\<rparr>"
  have i: "reader_inv (r_r ?r)" by (simp add: reader_inv_def NewReader_def)
  have a: "fst (Bread ?r (\<lambda>h. new_file ''abcd'') ''xxxxxx'') = 4
    \<and> fst (snd (Bread ?r (\<lambda>h. new_file ''abcd'') ''xxxxxx'')) = ''abcdxx''"
  proof -
    obtain res p' r' \<sigma>' where b: "Bread ?r (\<lambda>h. new_file ''abcd'') ''xxxxxx'' = (res, p', r', \<sigma>')"
      by (cases "Bread ?r (\<lambda>h. new_file ''abcd'') ''xxxxxx''") auto
    from Bread_fills_until_full_or_end [OF i b] b show ?thesis
      by (simp add: stream_def readable_def read_end_def NewReader_def new_file_def Let_def)
  qed
  have b: "fst (Bread ?r (\<lambda>h. new_file []) ''xxxxxx'') = 0"
  proof -
    obtain res p' r' \<sigma>' where b: "Bread ?r (\<lambda>h. new_file []) ''xxxxxx'' = (res, p', r', \<sigma>')"
      by (cases "Bread ?r (\<lambda>h. new_file []) ''xxxxxx''") auto
    from Bread_fills_until_full_or_end [OF i b] b show ?thesis
      by (simp add: stream_def readable_def read_end_def NewReader_def new_file_def Let_def)
  qed
  have c: "fst (Bread ?r (\<lambda>h. (new_file ''abcd'')\<lparr>rd_bad := Some 0\<rparr>) ''xxxxxx'') = - 1"
  proof -
    obtain res p' r' \<sigma>' where
      b: "Bread ?r (\<lambda>h. (new_file ''abcd'')\<lparr>rd_bad := Some 0\<rparr>) ''xxxxxx'' = (res, p', r', \<sigma>')"
      by (cases "Bread ?r (\<lambda>h. (new_file ''abcd'')\<lparr>rd_bad := Some 0\<rparr>) ''xxxxxx''") auto
    from Bread_fills_until_full_or_end [OF i b] b show ?thesis
      by (simp add: stream_def readable_def read_end_def NewReader_def new_file_def Let_def)
  qed
  from i a b c show ?thesis by simp
qed

text \<open>
  C10. Whenever \<^verbatim>\<open>io.ReadFull\<close> obtained at least one byte, \<^const>\<open>Bread\<close> returns that
  positive count and nothing else about the read: the error \<open>err\<close> of \<^verbatim>\<open>io.ReadFull\<close>,
  whatever it is, is in no component of the result.
\<close>

theorem Bread_hides_error_after_bytes:
  assumes "io_ReadFull (r_r r) \<sigma> p = (n, err, p', b', \<sigma>')" and "0 < n"
  shows "Bread r \<sigma> p = (int n, p', r\<lparr>r_r := b'\<rparr>, \<sigma>') \<and> 0 < fst (Bread r \<sigma> p)"
  using assms by (simp add: Bread_def)

theorem Bread_hides_error_after_bytes_witness:
  "fst (io_ReadFull (NewReader (Some 0)) (\<lambda>h. (new_file ''abcdefgh'')\<lparr>rd_bad := Some 4\<rparr>) ''xxxxxx'') = 4
   \<and> fst (snd (io_ReadFull (NewReader (Some 0)) (\<lambda>h. (new_file ''abcdefgh'')\<lparr>rd_bad := Some 4\<rparr>)
                 ''xxxxxx'')) = Some EIO
   \<and> fst (Bread \<lparr>r_f = Some 0, r_r = NewReader (Some 0)\<rparr>
            (\<lambda>h. (new_file ''abcdefgh'')\<lparr>rd_bad := Some 4\<rparr>) ''xxxxxx'') = 4
   \<and> fst (snd (Bread \<lparr>r_f = Some 0, r_r = NewReader (Some 0)\<rparr>
            (\<lambda>h. (new_file ''abcdefgh'')\<lparr>rd_bad := Some 4\<rparr>) ''xxxxxx'')) = ''abcdxx''"
proof -
  let ?r = "\<lparr>r_f = Some 0, r_r = NewReader (Some 0)\<rparr>"
  let ?s = "\<lambda>h::nat. (new_file ''abcdefgh'')\<lparr>rd_bad := Some 4\<rparr>"
  have i: "reader_inv (r_r ?r)" by (simp add: reader_inv_def NewReader_def)
  obtain n err p' b' \<sigma>' where f: "io_ReadFull (r_r ?r) ?s ''xxxxxx'' = (n, err, p', b', \<sigma>')"
    by (cases "io_ReadFull (r_r ?r) ?s ''xxxxxx''") auto
  from io_ReadFull_stream [OF i f] have v: "n = 4" "err = Some EIO" "p' = ''abcdxx''"
    by (simp_all add: stream_def readable_def read_end_def NewReader_def new_file_def)
  then have "0 < n" by simp
  from Bread_hides_error_after_bytes [OF f this] f v show ?thesis by simp
qed

subsection \<open>Reader.Offset and Reader.Seek\<close>

lemma wrap64_id: "- (2 ^ 63) \<le> x \<Longrightarrow> x \<le> maxInt64 \<Longrightarrow> wrap64 x = x"
  by (simp add: wrap64_def maxInt64_def)

lemma wrap64_low: "- (2 ^ 64) \<le> x \<Longrightarrow> x < - (2 ^ 63) \<Longrightarrow> wrap64 x = x + 2 ^ 64"
proof -
  assume a: "- (2 ^ 64) \<le> x" and b: "x < - (2 ^ 63)"
  have "(x + 2 ^ 63) mod 2 ^ 64 = (x + 2 ^ 63 + 2 ^ 64) mod 2 ^ 64" by (simp only: mod_add_self2)
  also have "\<dots> = x + 2 ^ 63 + 2 ^ 64" using a b by (intro mod_pos_pos_trivial) simp_all
  finally show ?thesis by (simp add: wrap64_def)
qed

lemma file_Seek_0_1:
  "\<not> closed fl \<Longrightarrow> int (cursor fl) \<le> maxInt64 \<Longrightarrow> file_Seek fl 0 1 = Inr (int (cursor fl), fl)"
  by (simp add: file_Seek_def)

lemma Reader_Offset_eq:
  assumes "Reader_on h r" and "\<not> closed (\<sigma> h)" and "int (cursor (\<sigma> h)) \<le> maxInt64"
    and "Buffered (r_r r) \<le> cursor (\<sigma> h)"
  shows "Reader_Offset r \<sigma> = Inr (int (cursor (\<sigma> h)) - int (Buffered (r_r r)), \<sigma>)"
proof -
  have "wrap64 (int (cursor (\<sigma> h)) - int (Buffered (r_r r))) = int (cursor (\<sigma> h)) - int (Buffered (r_r r))"
    using assms(3,4) by (intro wrap64_id) (simp_all add: maxInt64_def)
  with assms file_Seek_0_1 [OF assms(2,3)] show ?thesis
    by (simp add: Reader_Offset_def os_Seek_def Reader_on_def)
qed

lemma Reader_Seek_cur_eq:
  assumes "Reader_on h r" and "int (cursor (\<sigma> h)) \<le> maxInt64"
    and "Buffered (r_r r) \<le> cursor (\<sigma> h)" and "- (2 ^ 63) \<le> offset" and "offset \<le> maxInt64"
  shows "Reader_Seek r \<sigma> offset 1 =
     (case file_Seek (\<sigma> h) (offset - int (Buffered (r_r r))) 1 of
        Inl err \<Rightarrow> Inl (Fatal ''seeking in output'' err)
      | Inr (pos, fl) \<Rightarrow> Inr (pos, r\<lparr>r_r := NewReader (Some h)\<rparr>, \<sigma>(h := fl)))"
proof (cases "- (2 ^ 63) \<le> offset - int (Buffered (r_r r))")
  case True
  then have "wrap64 (offset - int (Buffered (r_r r))) = offset - int (Buffered (r_r r))"
    using assms(5) by (intro wrap64_id) simp_all
  with assms(1) show ?thesis
    by (simp add: Reader_Seek_def os_Seek_def Reader_on_def Reset_def NewReader_def Let_def
        split: sum.splits)
next
  case False
  let ?x = "offset - int (Buffered (r_r r))"
  from False have lt: "?x < - (2 ^ 63)" by simp
  from assms(2,3,4) have ge: "- (2 ^ 64) \<le> ?x" by (simp add: maxInt64_def)
  have w: "wrap64 ?x = ?x + 2 ^ 64" using ge lt by (rule wrap64_low)
  have a: "file_Seek (\<sigma> h) (wrap64 ?x) 1 = (if closed (\<sigma> h) then Inl EBADF else Inl EINVAL)"
    using assms(3,4) lt by (simp add: w file_Seek_def Let_def maxInt64_def)
  have b: "file_Seek (\<sigma> h) ?x 1 = (if closed (\<sigma> h) then Inl EBADF else Inl EINVAL)"
    using assms(2) lt by (simp add: file_Seek_def Let_def maxInt64_def)
  from a b assms(1) show ?thesis
    by (simp add: Reader_Seek_def os_Seek_def Reader_on_def Let_def)
qed
lemma Reader_Seek_restores:
  assumes on: "Reader_on h r" and cur: "int (cursor (\<sigma> h)) \<le> maxInt64"
    and buf: "Buffered (r_r r) \<le> cursor (\<sigma> h)"
    and lo: "- (2 ^ 63) \<le> offset" and hi: "offset \<le> maxInt64"
    and ok: "Reader_Seek r \<sigma> offset whence = Inr (pos, r', \<sigma>')"
  shows "Reader_on h r' \<and> Buffered (r_r r') = 0 \<and> int (cursor (\<sigma>' h)) = pos
    \<and> Reader_Offset r' \<sigma>' = Inr (pos, \<sigma>')
    \<and> pos = (if whence = 0 then offset
             else if whence = 1 then int (cursor (\<sigma> h)) - int (Buffered (r_r r)) + offset
             else int (length (contents (\<sigma> h))) + offset)"
proof -
  let ?off = "if whence = 1 then offset - int (Buffered (r_r r)) else offset"
  have eq: "Reader_Seek r \<sigma> offset whence =
     (case file_Seek (\<sigma> h) ?off whence of
        Inl err \<Rightarrow> Inl (Fatal ''seeking in output'' err)
      | Inr (pos, fl) \<Rightarrow> Inr (pos, r\<lparr>r_r := NewReader (Some h)\<rparr>, \<sigma>(h := fl)))"
  proof (cases "whence = 1")
    case True
    with Reader_Seek_cur_eq [of h r \<sigma> offset, OF on cur buf lo hi] show ?thesis by simp
  next
    case False
    with on show ?thesis
      by (simp add: Reader_Seek_def os_Seek_def Reader_on_def Reset_def NewReader_def Let_def
          split: sum.splits)
  qed
  from ok eq obtain fl where s: "file_Seek (\<sigma> h) ?off whence = Inr (pos, fl)"
    and r': "r' = r\<lparr>r_r := NewReader (Some h)\<rparr>" and s': "\<sigma>' = \<sigma>(h := fl)"
    by (auto split: sum.splits)
  note fk = file_Seek_ok [OF s]
  from on r' have on': "Reader_on h r'" by (simp add: Reader_on_def NewReader_def)
  from r' have b0: "Buffered (r_r r') = 0" by (simp add: Buffered_def NewReader_def)
  from fk s' have c': "int (cursor (\<sigma>' h)) = pos" and nc: "\<not> closed (\<sigma>' h)" by simp_all
  from fk c' have cm: "int (cursor (\<sigma>' h)) \<le> maxInt64" by simp
  from b0 have bl: "Buffered (r_r r') \<le> cursor (\<sigma>' h)" by simp
  from Reader_Offset_eq [of h r' \<sigma>', OF on' nc cm bl] b0 c'
  have o: "Reader_Offset r' \<sigma>' = Inr (pos, \<sigma>')" by simp
  from fk have "pos = (if whence = 0 then offset
             else if whence = 1 then int (cursor (\<sigma> h)) - int (Buffered (r_r r)) + offset
             else int (length (contents (\<sigma> h))) + offset)"
    by (auto split: if_splits)
  with on' b0 c' o show ?thesis by simp
qed

text \<open>
  The Reader that \<^const>\<open>Open\<close> returns, over a file of more than three bytes: a Read of
  three bytes pulls more than three bytes from the handle; a relative seek by 0 then
  returns 3, and so does Offset after it.
\<close>

lemma relative_seek_after_read_ahead:
  assumes "3 < length s" and "length p = 3"
  shows "\<exists>r0 r1 \<sigma>1 r2 \<sigma>2.
      Open (Inr h) = Inr r0
    \<and> Reader_Read r0 (\<sigma>(h := new_file s)) p = (3, None, take 3 s, r1, \<sigma>1)
    \<and> 3 < cursor (\<sigma>1 h)
    \<and> Reader_Seek r1 \<sigma>1 0 1 = Inr (3, r2, \<sigma>2)
    \<and> Reader_Offset r2 \<sigma>2 = Inr (3, \<sigma>2)"
proof -
  let ?b0 = "NewReader (Some h)"
  let ?r0 = "\<lparr>r_f = Some h, r_r = ?b0\<rparr>"
  let ?s0 = "\<sigma>(h := new_file s)"
  let ?c = "min (length s) defaultBufSize"
  let ?b1 = "?b0\<lparr>rbuf := drop 3 (take defaultBufSize s)\<rparr>"
  let ?r1 = "?r0\<lparr>r_r := ?b1\<rparr>"
  let ?s1 = "advance ?s0 (Some h) ?c"
  have op: "Open (Inr h) = Inr ?r0" by (simp add: Open_def)
  have inv: "reader_inv ?b0" by (simp add: reader_inv_def NewReader_def)
  from assms(2) have pn: "p \<noteq> []" by auto
  have rs: "readable ?s0 (rd ?b0) = s" by (simp add: readable_def NewReader_def new_file_def)
  have c3: "3 < ?c" using assms(1) by (simp add: defaultBufSize_def)
  have e1: "rbuf ?b0 = []" "rd ?b0 = Some h" by (simp_all add: NewReader_def)
  have sn: "s \<noteq> []" using assms(1) by auto
  have nl: "\<not> defaultBufSize \<le> length p" using assms(2) by (simp add: defaultBufSize_def)
  have br: "bufio_Read ?b0 ?s0 p =
     (min (length p) (length (take defaultBufSize s)), None,
      take (length p) (take defaultBufSize s) @ drop (min (length p) (length (take defaultBufSize s))) p,
      ?b0\<lparr>rbuf := drop (length p) (take defaultBufSize s)\<rparr>,
      advance ?s0 (Some h) (length (take defaultBufSize s)))"
    using bufio_Read_eq [OF inv pn, of ?s0] e1 rs sn nl by simp
  have m3: "min (length p) (length (take defaultBufSize s)) = 3"
    using assms c3 by simp
  have t3: "take (length p) (take defaultBufSize s) = take 3 s"
    using assms by (simp add: defaultBufSize_def)
  have rd: "Reader_Read ?r0 ?s0 p = (3, None, take 3 s, ?r1, ?s1)"
    using assms by (simp add: Reader_Read_def br defaultBufSize_def)
  have on: "Reader_on h ?r1" by (simp add: Reader_on_def NewReader_def)
  have cur: "cursor (?s1 h) = ?c" by (simp add: advance_def new_file_def)
  have bf: "Buffered (r_r ?r1) = ?c - 3" by (simp add: Buffered_def min.commute)
  have cm: "int (cursor (?s1 h)) \<le> maxInt64"
    unfolding cur by (simp add: maxInt64_def defaultBufSize_def)
  have bl: "Buffered (r_r ?r1) \<le> cursor (?s1 h)" unfolding cur bf by (rule diff_le_self)
  have nc: "\<not> closed (?s1 h)" by (simp add: advance_def new_file_def)
  have fs: "file_Seek (?s1 h) (0 - int (Buffered (r_r ?r1))) 1 = Inr (3, (?s1 h)\<lparr>cursor := 3\<rparr>)"
    using c3 nc unfolding bf by (simp add: file_Seek_def Let_def cur maxInt64_def)
  let ?r2 = "?r1\<lparr>r_r := NewReader (Some h)\<rparr>"
  let ?s2 = "?s1(h := (?s1 h)\<lparr>cursor := 3\<rparr>)"
  have sk: "Reader_Seek ?r1 ?s1 0 1 = Inr (3, ?r2, ?s2)"
    using Reader_Seek_cur_eq [of h ?r1 ?s1 0, OF on cm bl] fs by (simp add: maxInt64_def)
  from Reader_Seek_restores [of h ?r1 ?s1 0 1 3 ?r2 ?s2, OF on cm bl _ _ sk]
  have "Reader_Offset ?r2 ?s2 = Inr (3, ?s2)" by (simp add: maxInt64_def)
  with op rd cur c3 sk show ?thesis by (intro exI [of _ ?r0] exI [of _ ?r1] exI [of _ ?s1] exI [of _ ?r2] exI [of _ ?s2]) simp
qed
text \<open>
  C2. For a Reader on the open handle \<open>h\<close> whose buffered bytes were read from that
  handle, \<^const>\<open>Reader_Offset\<close> returns the raw cursor minus the count of buffered bytes.
  A seek from the current position seeks the handle by the offset minus that count and
  replaces the buffer by an empty one; after a seek that succeeds, with any \<open>whence\<close>,
  nothing is buffered and \<^const>\<open>Reader_Offset\<close> returns the position the seek returned,
  which for a seek from the current position is the old logical position plus the
  offset. On a freshly opened file of more than three bytes, a Read of three bytes moves
  the raw cursor beyond 3, and a seek by 0 from the current position, then Offset, both
  return 3.
\<close>

theorem Reader_Offset_is_cursor_minus_buffered:
  assumes "Reader_on h r" and "\<not> closed (\<sigma> h)" and "int (cursor (\<sigma> h)) \<le> maxInt64"
    and "Buffered (r_r r) \<le> cursor (\<sigma> h)" and "- (2 ^ 63) \<le> offset" and "offset \<le> maxInt64"
  shows "Reader_Offset r \<sigma> = Inr (int (cursor (\<sigma> h)) - int (Buffered (r_r r)), \<sigma>)
    \<and> Reader_Seek r \<sigma> offset 1 =
        (case file_Seek (\<sigma> h) (offset - int (Buffered (r_r r))) 1 of
           Inl err \<Rightarrow> Inl (Fatal ''seeking in output'' err)
         | Inr (pos, fl) \<Rightarrow> Inr (pos, r\<lparr>r_r := NewReader (Some h)\<rparr>, \<sigma>(h := fl)))
    \<and> (\<forall>whence pos r' \<sigma>'. Reader_Seek r \<sigma> offset whence = Inr (pos, r', \<sigma>') \<longrightarrow>
          Buffered (r_r r') = 0 \<and> Reader_Offset r' \<sigma>' = Inr (pos, \<sigma>')
          \<and> (whence = 1 \<longrightarrow> pos = int (cursor (\<sigma> h)) - int (Buffered (r_r r)) + offset))
    \<and> (\<forall>s p. 3 < length s \<and> length p = 3 \<longrightarrow>
          (\<exists>r0 r1 \<sigma>1 r2 \<sigma>2.
              Open (Inr h) = Inr r0
            \<and> Reader_Read r0 (\<sigma>(h := new_file s)) p = (3, None, take 3 s, r1, \<sigma>1)
            \<and> 3 < cursor (\<sigma>1 h)
            \<and> Reader_Seek r1 \<sigma>1 0 1 = Inr (3, r2, \<sigma>2)
            \<and> Reader_Offset r2 \<sigma>2 = Inr (3, \<sigma>2)))"
proof -
  note a = Reader_Offset_eq [of h r \<sigma>, OF assms(1,2,3,4)]
  note b = Reader_Seek_cur_eq [of h r \<sigma> offset, OF assms(1,3,4,5,6)]
  have c: "Buffered (r_r r') = 0 \<and> Reader_Offset r' \<sigma>' = Inr (pos, \<sigma>')
          \<and> (whence = 1 \<longrightarrow> pos = int (cursor (\<sigma> h)) - int (Buffered (r_r r)) + offset)"
    if "Reader_Seek r \<sigma> offset whence = Inr (pos, r', \<sigma>')" for whence pos r' \<sigma>'
    using Reader_Seek_restores [of h r \<sigma> offset whence pos r' \<sigma>', OF assms(1,3,4,5,6) that]
    by simp
  have d: "\<exists>r0 r1 \<sigma>1 r2 \<sigma>2.
              Open (Inr h) = Inr r0
            \<and> Reader_Read r0 (\<sigma>(h := new_file s)) p = (3, None, take 3 s, r1, \<sigma>1)
            \<and> 3 < cursor (\<sigma>1 h)
            \<and> Reader_Seek r1 \<sigma>1 0 1 = Inr (3, r2, \<sigma>2)
            \<and> Reader_Offset r2 \<sigma>2 = Inr (3, \<sigma>2)"
    if "3 < length s \<and> length p = 3" for s p
    using relative_seek_after_read_ahead [of s p h \<sigma>] that by blast
  from a b c d show ?thesis by blast
qed

theorem Reader_Offset_is_cursor_minus_buffered_witness:
  "Reader_on 0 \<lparr>r_f = Some 0, r_r = \<lparr>rd = Some 0, rbuf = ''defgh'', rerr = None\<rparr>\<rparr>
   \<and> Buffered \<lparr>rd = Some 0, rbuf = ''defgh'', rerr = None\<rparr> = 5
   \<and> cursor ((new_file ''abcdefgh'')\<lparr>cursor := 8\<rparr>) = 8
   \<and> Reader_Offset \<lparr>r_f = Some 0, r_r = \<lparr>rd = Some 0, rbuf = ''defgh'', rerr = None\<rparr>\<rparr>
         (\<lambda>h. (new_file ''abcdefgh'')\<lparr>cursor := 8\<rparr>)
       = Inr (3, \<lambda>h. (new_file ''abcdefgh'')\<lparr>cursor := 8\<rparr>)
   \<and> (case Reader_Seek \<lparr>r_f = Some 0, r_r = \<lparr>rd = Some 0, rbuf = ''defgh'', rerr = None\<rparr>\<rparr>
                (\<lambda>h. (new_file ''abcdefgh'')\<lparr>cursor := 8\<rparr>) 0 1 of
         Inr (pos, r', \<sigma>') \<Rightarrow>
           pos = 3 \<and> cursor (\<sigma>' 0) = 3 \<and> rbuf (r_r r') = [] \<and> Reader_Offset r' \<sigma>' = Inr (3, \<sigma>')
       | Inl a \<Rightarrow> False)"
proof -
  let ?r = "\<lparr>r_f = Some 0, r_r = \<lparr>rd = Some 0, rbuf = ''defgh'', rerr = None\<rparr>\<rparr>"
  let ?s = "\<lambda>h::nat. (new_file ''abcdefgh'')\<lparr>cursor := 8\<rparr>"
  have on: "Reader_on 0 ?r" by (simp add: Reader_on_def)
  have nc: "\<not> closed (?s 0)" by (simp add: new_file_def)
  have cm: "int (cursor (?s 0)) \<le> maxInt64" by (simp add: maxInt64_def)
  have bl: "Buffered (r_r ?r) \<le> cursor (?s 0)" by (simp add: Buffered_def)
  have lo: "- (2 ^ 63) \<le> (0::int)" by simp
  have hi: "(0::int) \<le> maxInt64" by (simp add: maxInt64_def)
  note t = Reader_Offset_is_cursor_minus_buffered [of 0 ?r ?s 0, OF on nc cm bl lo hi]
  have fs: "file_Seek (?s 0) (0 - int (Buffered (r_r ?r))) 1
      = Inr (3, (new_file ''abcdefgh'')\<lparr>cursor := 3\<rparr>)"
    by (simp add: file_Seek_def Buffered_def new_file_def maxInt64_def)
  from t fs have sk: "Reader_Seek ?r ?s 0 1
      = Inr (3, ?r\<lparr>r_r := NewReader (Some 0)\<rparr>, ?s(0 := (new_file ''abcdefgh'')\<lparr>cursor := 3\<rparr>))"
    by simp
  from t sk have "Reader_Offset (?r\<lparr>r_r := NewReader (Some 0)\<rparr>)
        (?s(0 := (new_file ''abcdefgh'')\<lparr>cursor := 3\<rparr>))
      = Inr (3, ?s(0 := (new_file ''abcdefgh'')\<lparr>cursor := 3\<rparr>))"
    by blast
  moreover from t have "Reader_Offset ?r ?s = Inr (3, ?s)" by (simp add: Buffered_def)
  ultimately show ?thesis using on sk by (simp add: Buffered_def NewReader_def)
qed

subsection \<open>Peek, in terms of the bytes still to deliver\<close>

lemma take_short: "length (take k xs) < k \<Longrightarrow> take k xs = xs"
  by (simp add: min_def split: if_splits)

lemma Peek_loop_eq:
  assumes "rerr b = None" and "n \<le> defaultBufSize"
  shows "Peek_loop b \<sigma> n =
    (if n \<le> length (rbuf b) then (b, \<sigma>)
     else
       (b\<lparr>rbuf := rbuf b @ take (defaultBufSize - length (rbuf b)) (readable \<sigma> (rd b)),
          rerr := (if length (rbuf b @ take (defaultBufSize - length (rbuf b)) (readable \<sigma> (rd b))) < n
                   then Some (read_end \<sigma> (rd b)) else None)\<rparr>,
        advance \<sigma> (rd b) (length (take (defaultBufSize - length (rbuf b)) (readable \<sigma> (rd b))))))"
proof (cases "n \<le> length (rbuf b)")
  case True
  then show ?thesis by (subst Peek_loop.simps) simp
next
  case False
  let ?d = "take (defaultBufSize - length (rbuf b)) (readable \<sigma> (rd b))"
  let ?b1 = "b\<lparr>rbuf := rbuf b @ ?d,
       rerr := (if readable \<sigma> (rd b) = [] then Some (read_end \<sigma> (rd b)) else rerr b)\<rparr>"
  let ?s1 = "advance \<sigma> (rd b) (length ?d)"
  from False assms(2) have lt: "length (rbuf b) < defaultBufSize" by simp
  have step: "Peek_loop b \<sigma> n = Peek_loop ?b1 ?s1 n"
    using False assms(1) fill_eq [OF lt, of \<sigma>] by (subst Peek_loop.simps) simp
  show ?thesis
  proof (cases "readable \<sigma> (rd b) = []")
    case True
    then have "Peek_loop ?b1 ?s1 n = (?b1, ?s1)" by (subst Peek_loop.simps) simp
    with step True False show ?thesis by simp
  next
    case rn: False
    show ?thesis
    proof (cases "n \<le> length (rbuf b @ ?d)")
      case True
      then have "Peek_loop ?b1 ?s1 n = (?b1, ?s1)" by (subst Peek_loop.simps) simp
      with step True False rn assms(1) show ?thesis by simp
    next
      case short: False
      with assms(2) have "length ?d < defaultBufSize - length (rbuf b)" by simp
      then have d: "?d = readable \<sigma> (rd b)" by (rule take_short)
      have k: "length ?d \<le> length (readable \<sigma> (rd b))" by simp
      have r1: "readable ?s1 (rd b) = []" using readable_advance [OF k] d by simp
      have e1: "read_end ?s1 (rd b) = read_end \<sigma> (rd b)" by (rule read_end_advance [OF k])
      from short assms(2) have lt1: "length (rbuf ?b1) < defaultBufSize" by simp
      let ?b2 = "?b1\<lparr>rerr := Some (read_end \<sigma> (rd b))\<rparr>"
      have "Peek_loop ?b1 ?s1 n = Peek_loop ?b2 ?s1 n"
        using short rn assms(1) fill_eq [OF lt1, of ?s1] r1 e1 by (subst Peek_loop.simps) simp
      also have "\<dots> = (?b2, ?s1)" by (subst Peek_loop.simps) simp
      finally show ?thesis using step short False rn by simp
    qed
  qed
qed

lemma Peek_eq:
  assumes "rerr b = None" and "0 \<le> n" and "n \<le> int defaultBufSize"
  shows "Peek b \<sigma> n =
    (if nat n \<le> length (rbuf b) then (take (nat n) (rbuf b), None, b, \<sigma>)
     else
       (let d = take (defaultBufSize - length (rbuf b)) (readable \<sigma> (rd b)) in
        if nat n \<le> length (rbuf b @ d)
        then (take (nat n) (rbuf b @ d), None, b\<lparr>rbuf := rbuf b @ d\<rparr>, advance \<sigma> (rd b) (length d))
        else (rbuf b @ d, Some (read_end \<sigma> (rd b)), b\<lparr>rbuf := rbuf b @ d\<rparr>,
              advance \<sigma> (rd b) (length d))))"
proof -
  from assms(2,3) have n: "nat n \<le> defaultBufSize" by simp
  from assms(1) have bb: "b\<lparr>rerr := None\<rparr> = b" by simp
  show ?thesis
    using assms Peek_loop_eq [OF assms(1) n, of \<sigma>] bb
    by (auto simp: Peek_def Let_def readErr_def)
qed





subsection \<open>Peek followed by Read\<close>











subsection \<open>ReadSlice and ReadBytes, in terms of the bytes still to deliver\<close>

lemma take_up_to_delim:
  "d \<in> set xs \<Longrightarrow>
     take (length (takeWhile (\<lambda>c. c \<noteq> d) xs) + 1) xs = takeWhile (\<lambda>c. c \<noteq> d) xs @ [d]
     \<and> drop (length (takeWhile (\<lambda>c. c \<noteq> d) xs) + 1) xs = tl (dropWhile (\<lambda>c. c \<noteq> d) xs)"
  by (induction xs) auto

lemma read_end_not_full: "read_end \<sigma> fp \<noteq> ErrBufferFull"
  by (auto simp: read_end_def split: option.splits)

lemma ReadSlice_found:
  "d \<in> set (rbuf b) \<Longrightarrow>
     ReadSlice b \<sigma> d =
       (takeWhile (\<lambda>c. c \<noteq> d) (rbuf b) @ [d], None,
        b\<lparr>rbuf := tl (dropWhile (\<lambda>c. c \<noteq> d) (rbuf b))\<rparr>, \<sigma>)"
  using take_up_to_delim [of d "rbuf b"] by (subst ReadSlice.simps) (simp add: Let_def)

lemma ReadSlice_pending:
  "d \<notin> set (rbuf b) \<Longrightarrow> rerr b = Some x \<Longrightarrow>
     ReadSlice b \<sigma> d = (rbuf b, Some x, b\<lparr>rerr := None, rbuf := []\<rparr>, \<sigma>)"
  by (subst ReadSlice.simps) (simp add: readErr_def)

lemma ReadSlice_full:
  "d \<notin> set (rbuf b) \<Longrightarrow> rerr b = None \<Longrightarrow> defaultBufSize \<le> length (rbuf b) \<Longrightarrow>
     ReadSlice b \<sigma> d = (rbuf b, Some ErrBufferFull, b\<lparr>rbuf := []\<rparr>, \<sigma>)"
  by (subst ReadSlice.simps) (simp add: Buffered_def)

lemma ReadSlice_fill:
  "d \<notin> set (rbuf b) \<Longrightarrow> rerr b = None \<Longrightarrow> length (rbuf b) < defaultBufSize \<Longrightarrow>
     ReadSlice b \<sigma> d =
       ReadSlice
         (b\<lparr>rbuf := rbuf b @ take (defaultBufSize - length (rbuf b)) (readable \<sigma> (rd b)),
            rerr := (if readable \<sigma> (rd b) = [] then Some (read_end \<sigma> (rd b)) else None)\<rparr>)
         (advance \<sigma> (rd b) (length (take (defaultBufSize - length (rbuf b)) (readable \<sigma> (rd b)))))
         d"
  using fill_eq [of b \<sigma>] by (subst ReadSlice.simps) (simp add: Buffered_def)

text \<open>
  One \<^verbatim>\<open>ReadSlice\<close> of a reader between calls: the fragment returned is a prefix of the
  stream and is consumed. Without an error it ends at the first delimiter of the
  stream. With \<^const>\<open>ErrBufferFull\<close> it is a non-empty fragment without the delimiter.
  Any other error is the error of the handle: the stream held no delimiter and all of
  it was returned.
\<close>

lemma ReadSlice_stream:
  assumes inv: "reader_inv b" and rs: "ReadSlice b \<sigma> d = (line, e, b', \<sigma>')"
  shows "reader_inv b' \<and> rd b' = rd b \<and> read_end \<sigma>' (rd b) = read_end \<sigma> (rd b)
    \<and> line @ stream b' \<sigma>' = stream b \<sigma>
    \<and> (case e of
         None \<Rightarrow> d \<in> set (stream b \<sigma>) \<and> line = takeWhile (\<lambda>c. c \<noteq> d) (stream b \<sigma>) @ [d]
       | Some x \<Rightarrow>
           d \<notin> set line \<and>
           (if x = ErrBufferFull then line \<noteq> []
            else x = read_end \<sigma> (rd b) \<and> stream b' \<sigma>' = []))"
proof -
  let ?P = "\<lambda>c. c \<noteq> d"
  from inv have er: "rerr b = None" and sz: "length (rbuf b) \<le> defaultBufSize"
    by (simp_all add: reader_inv_def)
  show ?thesis
  proof (cases "d \<in> set (rbuf b)")
    case True
    from rs ReadSlice_found [OF True, of \<sigma>]
    have r: "line = takeWhile ?P (rbuf b) @ [d]" "e = None"
      "b' = b\<lparr>rbuf := tl (dropWhile ?P (rbuf b))\<rparr>" "\<sigma>' = \<sigma>" by simp_all
    have "takeWhile ?P (rbuf b) @ [d] @ tl (dropWhile ?P (rbuf b)) = rbuf b"
      using True take_up_to_delim [of d "rbuf b"] append_take_drop_id [of "length (takeWhile ?P (rbuf b)) + 1" "rbuf b"]
      by simp
    moreover have "takeWhile ?P (stream b \<sigma>) = takeWhile ?P (rbuf b)"
      using True by (simp add: stream_def takeWhile_append1)
    moreover have "length (tl (dropWhile ?P (rbuf b))) \<le> defaultBufSize"
      using sz by (simp add: le_trans [OF length_dropWhile_le] le_diff_conv trans_le_add1)
    ultimately show ?thesis using r True er by (simp add: stream_def reader_inv_def)
  next
    case nf: False
    show ?thesis
    proof (cases "defaultBufSize \<le> length (rbuf b)")
      case True
      from rs ReadSlice_full [OF nf er True, of \<sigma>]
      have r: "line = rbuf b" "e = Some ErrBufferFull" "b' = b\<lparr>rbuf := []\<rparr>" "\<sigma>' = \<sigma>" by simp_all
      from True defaultBufSize_pos have "rbuf b \<noteq> []" by auto
      with r nf er show ?thesis by (simp add: stream_def reader_inv_def)
    next
      case False
      then have lt: "length (rbuf b) < defaultBufSize" by simp
      let ?dd = "take (defaultBufSize - length (rbuf b)) (readable \<sigma> (rd b))"
      let ?b1 = "b\<lparr>rbuf := rbuf b @ ?dd,
            rerr := (if readable \<sigma> (rd b) = [] then Some (read_end \<sigma> (rd b)) else None)\<rparr>"
      let ?s1 = "advance \<sigma> (rd b) (length ?dd)"
      note step = ReadSlice_fill [OF nf er lt, of \<sigma>]
      have k: "length ?dd \<le> length (readable \<sigma> (rd b))" by simp
      have rd1: "readable ?s1 (rd b) = drop (length ?dd) (readable \<sigma> (rd b))"
        by (rule readable_advance [OF k])
      have re1: "read_end ?s1 (rd b) = read_end \<sigma> (rd b)" by (rule read_end_advance [OF k])
      have st1: "(rbuf b @ ?dd) @ readable ?s1 (rd b) = stream b \<sigma>"
        unfolding rd1 by (auto simp: stream_def min_def)
      show ?thesis
      proof (cases "readable \<sigma> (rd b) = []")
        case True
        with nf have "ReadSlice ?b1 ?s1 d = (rbuf b, Some (read_end \<sigma> (rd b)), b\<lparr>rbuf := []\<rparr>, \<sigma>)"
          using ReadSlice_pending [of d ?b1 "read_end \<sigma> (rd b)" ?s1] er by simp
        with rs step have r: "line = rbuf b" "e = Some (read_end \<sigma> (rd b))" "b' = b\<lparr>rbuf := []\<rparr>" "\<sigma>' = \<sigma>"
          by simp_all
        with True nf er read_end_not_full [of \<sigma> "rd b"] show ?thesis
          by (simp add: stream_def reader_inv_def)
      next
        case rn: False
        then have e1: "rerr ?b1 = None" by simp
        show ?thesis
        proof (cases "d \<in> set (rbuf b @ ?dd)")
          case True
          then have t1: "d \<in> set (rbuf ?b1)" by simp
          from rs step ReadSlice_found [OF t1, of ?s1]
          have r: "line = takeWhile ?P (rbuf b @ ?dd) @ [d]" "e = None"
            "b' = ?b1\<lparr>rbuf := tl (dropWhile ?P (rbuf b @ ?dd))\<rparr>" "\<sigma>' = ?s1" by simp_all
          have a: "takeWhile ?P (rbuf b @ ?dd) @ [d] @ tl (dropWhile ?P (rbuf b @ ?dd)) = rbuf b @ ?dd"
            using True take_up_to_delim [of d "rbuf b @ ?dd"]
              append_take_drop_id [of "length (takeWhile ?P (rbuf b @ ?dd)) + 1" "rbuf b @ ?dd"]
            by simp
          have b: "takeWhile ?P (stream b \<sigma>) = takeWhile ?P (rbuf b @ ?dd)"
            using True takeWhile_append1 [of d "rbuf b @ ?dd" ?P "readable ?s1 (rd b)"]
            unfolding st1 by simp
          have c: "length (tl (dropWhile ?P (rbuf b @ ?dd))) \<le> defaultBufSize"
          proof -
            have "length (tl (dropWhile ?P (rbuf b @ ?dd))) \<le> length (rbuf b @ ?dd)"
              by (simp add: le_trans [OF length_dropWhile_le] le_diff_conv trans_le_add1)
            also have "\<dots> \<le> defaultBufSize" using sz by (auto simp: min_def)
            finally show ?thesis .
          qed
          have dS: "d \<in> set (stream b \<sigma>)" using True st1 by (metis UnCI set_append)
          have "line @ stream b' \<sigma>' = stream b \<sigma>"
            using r a st1 by (simp add: stream_def) (metis append.assoc append_Cons append_Nil)
          with r b c dS rn re1 show ?thesis by (simp add: reader_inv_def)
        next
          case nf1: False
          then have n1: "d \<notin> set (rbuf ?b1)" by simp
          show ?thesis
          proof (cases "defaultBufSize \<le> length (rbuf b @ ?dd)")
            case True
            then have f1: "defaultBufSize \<le> length (rbuf ?b1)" by simp
            from rs step ReadSlice_full [OF n1 e1 f1, of ?s1]
            have r: "line = rbuf b @ ?dd" "e = Some ErrBufferFull" "b' = ?b1\<lparr>rbuf := []\<rparr>" "\<sigma>' = ?s1"
              by simp_all
            from rn lt have "?dd \<noteq> []" by (cases "readable \<sigma> (rd b)") (auto simp: take_Cons')
            with r nf1 rn st1 re1 show ?thesis by (simp add: stream_def reader_inv_def)
          next
            case False
            then have lt1: "length (rbuf ?b1) < defaultBufSize" by simp
            from False have "length ?dd < defaultBufSize - length (rbuf b)" by simp
            then have dd: "?dd = readable \<sigma> (rd b)" by (rule take_short)
            have r1: "readable ?s1 (rd ?b1) = []" using rd1 dd by simp
            from ReadSlice_fill [OF n1 e1 lt1, of ?s1] r1 re1
            have "ReadSlice ?b1 ?s1 d = ReadSlice (?b1\<lparr>rerr := Some (read_end \<sigma> (rd b))\<rparr>) ?s1 d"
              by simp
            also have "\<dots> = (rbuf b @ ?dd, Some (read_end \<sigma> (rd b)), ?b1\<lparr>rerr := None, rbuf := []\<rparr>, ?s1)"
              using ReadSlice_pending [of d "?b1\<lparr>rerr := Some (read_end \<sigma> (rd b))\<rparr>" "read_end \<sigma> (rd b)" ?s1] nf1
              by simp
            finally have "ReadSlice b \<sigma> d
                = (rbuf b @ ?dd, Some (read_end \<sigma> (rd b)), ?b1\<lparr>rerr := None, rbuf := []\<rparr>, ?s1)"
              using step by simp
            with rs have r: "line = rbuf b @ ?dd" "e = Some (read_end \<sigma> (rd b))"
              "b' = ?b1\<lparr>rerr := None, rbuf := []\<rparr>" "\<sigma>' = ?s1" by simp_all
            have "stream b' \<sigma>' = []" using r r1 by (simp add: stream_def)
            moreover have "line = stream b \<sigma>" using r dd by (simp add: stream_def)
            ultimately show ?thesis
              using r nf1 re1 read_end_not_full [of \<sigma> "rd b"] by (simp add: reader_inv_def)
          qed
        qed
      qed
    qed
  qed
qed
lemma split_at_delim:
  "d \<in> set xs \<Longrightarrow> (takeWhile (\<lambda>c. c \<noteq> d) xs @ [d]) @ tl (dropWhile (\<lambda>c. c \<noteq> d) xs) = xs"
  by (induction xs) auto

lemma ReadBytes_loop_stream:
  "ReadBytes_loop b \<sigma> d full = (out, e, b', \<sigma>') \<Longrightarrow> reader_inv b \<Longrightarrow>
     reader_inv b' \<and> rd b' = rd b \<and> read_end \<sigma>' (rd b) = read_end \<sigma> (rd b) \<and>
     (if d \<in> set (stream b \<sigma>)
      then e = None \<and> out = full @ takeWhile (\<lambda>c. c \<noteq> d) (stream b \<sigma>) @ [d]
           \<and> stream b' \<sigma>' = tl (dropWhile (\<lambda>c. c \<noteq> d) (stream b \<sigma>))
      else e = Some (read_end \<sigma> (rd b)) \<and> out = full @ stream b \<sigma> \<and> stream b' \<sigma>' = [])"
proof (induction b \<sigma> d full arbitrary: out e b' \<sigma>' rule: ReadBytes_loop.induct)
  case (1 b \<sigma> d full)
  let ?P = "\<lambda>c. c \<noteq> d"
  let ?S = "stream b \<sigma>"
  obtain frag e1 b1 \<sigma>1 where rs: "ReadSlice b \<sigma> d = (frag, e1, b1, \<sigma>1)"
    by (cases "ReadSlice b \<sigma> d") auto
  note st = ReadSlice_stream [OF "1.prems"(2) rs]
  from st have inv1: "reader_inv b1" and rd1: "rd b1 = rd b"
    and re1: "read_end \<sigma>1 (rd b) = read_end \<sigma> (rd b)" and ap: "frag @ stream b1 \<sigma>1 = ?S"
    by simp_all
  show ?case
  proof (cases e1)
    case None
    have "ReadBytes_loop b \<sigma> d full = (full @ frag, None, b1, \<sigma>1)"
      using rs None by (subst ReadBytes_loop.simps) simp
    with "1.prems"(1) have r: "out = full @ frag" "e = None" "b' = b1" "\<sigma>' = \<sigma>1"
      by simp_all
    from st None have dS: "d \<in> set ?S" and fr: "frag = takeWhile ?P ?S @ [d]" by simp_all
    from ap fr split_at_delim [OF dS] have "stream b1 \<sigma>1 = tl (dropWhile ?P ?S)"
      by (metis same_append_eq)
    with r dS fr inv1 rd1 re1 show ?thesis by simp
  next
    case (Some x)
    show ?thesis
    proof (cases "x = ErrBufferFull")
      case False
      have "ReadBytes_loop b \<sigma> d full = (full @ frag, Some x, b1, \<sigma>1)"
        using rs Some False by (subst ReadBytes_loop.simps) simp
      with "1.prems"(1) have r: "out = full @ frag" "e = Some x" "b' = b1" "\<sigma>' = \<sigma>1"
        by simp_all
      from st Some False have nd: "d \<notin> set frag" and x: "x = read_end \<sigma> (rd b)"
        and em: "stream b1 \<sigma>1 = []" by simp_all
      from ap em have "frag = ?S" by simp
      with r nd x em inv1 rd1 re1 show ?thesis by simp
    next
      case True
      have "ReadBytes_loop b \<sigma> d full = ReadBytes_loop b1 \<sigma>1 d (full @ frag)"
        using rs Some True by (subst ReadBytes_loop.simps) simp
      with "1.prems"(1)
      have loop: "ReadBytes_loop b1 \<sigma>1 d (full @ frag) = (out, e, b', \<sigma>')"
        by simp
      from Some True have c1: "e1 \<noteq> None" and c2: "\<not> e1 \<noteq> Some ErrBufferFull" by simp_all
      note ih = "1.IH" [OF rs [symmetric] refl refl c1 c2 loop inv1]
      from st Some True have nd: "d \<notin> set frag" by simp
      from nd ap have mem: "d \<in> set ?S \<longleftrightarrow> d \<in> set (stream b1 \<sigma>1)"
        by (metis Un_iff set_append)
      from nd have tw: "takeWhile ?P (frag @ stream b1 \<sigma>1) = frag @ takeWhile ?P (stream b1 \<sigma>1)"
        by (intro takeWhile_append2) auto
      from nd have dw: "dropWhile ?P (frag @ stream b1 \<sigma>1) = dropWhile ?P (stream b1 \<sigma>1)"
        by (intro dropWhile_append2) auto
      have tw': "takeWhile ?P ?S = frag @ takeWhile ?P (stream b1 \<sigma>1)"
        using tw ap by simp
      have dw': "dropWhile ?P ?S = dropWhile ?P (stream b1 \<sigma>1)"
        using dw ap by simp
      have S': "full @ ?S = (full @ frag) @ stream b1 \<sigma>1" using ap by simp
      show ?thesis
      proof (cases "d \<in> set ?S")
        case True
        with mem have "d \<in> set (stream b1 \<sigma>1)" by simp
        with ih have "e = None" "out = (full @ frag) @ takeWhile ?P (stream b1 \<sigma>1) @ [d]"
          "stream b' \<sigma>' = tl (dropWhile ?P (stream b1 \<sigma>1))"
          "reader_inv b'" "rd b' = rd b1" "read_end \<sigma>' (rd b1) = read_end \<sigma>1 (rd b1)"
          by simp_all
        with True tw' dw' rd1 re1 show ?thesis by simp
      next
        case False
        with mem have "d \<notin> set (stream b1 \<sigma>1)" by simp
        with ih have "e = Some (read_end \<sigma>1 (rd b1))" "out = (full @ frag) @ stream b1 \<sigma>1"
          "stream b' \<sigma>' = []"
          "reader_inv b'" "rd b' = rd b1" "read_end \<sigma>' (rd b1) = read_end \<sigma>1 (rd b1)"
          by simp_all
        with False S' rd1 re1 show ?thesis by simp
      qed
    qed
  qed
qed

text \<open>
  \<^const>\<open>Brdline\<close> on a Reader between calls: with the delimiter somewhere in the stream
  it returns the bytes up to and including its first occurrence and consumes them; with
  no delimiter in the stream it aborts with the error of the handle, which is
  \<^const>\<open>io_EOF\<close> at a clean end of the stream.
\<close>

lemma Brdline_stream:
  assumes "reader_inv (r_r r)"
  shows "if char_of delim \<in> set (stream (r_r r) \<sigma>)
     then \<exists>r' \<sigma>'. Brdline r \<sigma> delim
              = Inr (takeWhile (\<lambda>c. c \<noteq> char_of delim) (stream (r_r r) \<sigma>) @ [char_of delim], r', \<sigma>')
            \<and> stream (r_r r') \<sigma>' = tl (dropWhile (\<lambda>c. c \<noteq> char_of delim) (stream (r_r r) \<sigma>))
            \<and> reader_inv (r_r r') \<and> r_f r' = r_f r \<and> rd (r_r r') = rd (r_r r)
            \<and> read_end \<sigma>' (rd (r_r r)) = read_end \<sigma> (rd (r_r r))
     else Brdline r \<sigma> delim = Inl (Fatal ''reading input'' (read_end \<sigma> (rd (r_r r))))"
proof -
  obtain out e b' \<sigma>' where rb: "ReadBytes_loop (r_r r) \<sigma> (char_of delim) [] = (out, e, b', \<sigma>')"
    by (cases "ReadBytes_loop (r_r r) \<sigma> (char_of delim) []") auto
  from ReadBytes_loop_stream [OF rb assms] rb show ?thesis
    by (auto simp: Brdline_def ReadBytes_def)
qed
subsection \<open>Brdline\<close>

text \<open>
  C1, as amended. On a Reader between calls, \<^const>\<open>Brdline\<close> with the delimiter
  \<^verbatim>\<open>byte(delim)\<close> somewhere in the rest of the stream returns the bytes up to and
  including its first occurrence and consumes them. With no delimiter in the rest of the
  stream it is fatal, with the error of the handle as the cause: nothing is returned, and
  at a clean end of the stream the cause is \<^const>\<open>io_EOF\<close>.
\<close>

theorem Brdline_first_delimiter_or_fatal:
  assumes "reader_inv (r_r r)"
  shows "(char_of delim \<in> set (stream (r_r r) \<sigma>) \<longrightarrow>
           (\<exists>r' \<sigma>'. Brdline r \<sigma> delim
               = Inr (takeWhile (\<lambda>c. c \<noteq> char_of delim) (stream (r_r r) \<sigma>) @ [char_of delim], r', \<sigma>')
             \<and> stream (r_r r') \<sigma>' = tl (dropWhile (\<lambda>c. c \<noteq> char_of delim) (stream (r_r r) \<sigma>))
             \<and> reader_inv (r_r r') \<and> rd (r_r r') = rd (r_r r)
             \<and> read_end \<sigma>' (rd (r_r r)) = read_end \<sigma> (rd (r_r r))))
    \<and> (char_of delim \<notin> set (stream (r_r r) \<sigma>) \<longrightarrow>
           Brdline r \<sigma> delim = Inl (Fatal ''reading input'' (read_end \<sigma> (rd (r_r r)))))
    \<and> (clean_end (r_r r) \<sigma> \<longrightarrow> Brdline r \<sigma> delim = Inl (Fatal ''reading input'' io_EOF))"
proof -
  note b = Brdline_stream [OF assms, of delim \<sigma>]
  have "Brdline r \<sigma> delim = Inl (Fatal ''reading input'' io_EOF)" if "clean_end (r_r r) \<sigma>"
  proof -
    from that assms have "stream (r_r r) \<sigma> = []" and "read_end \<sigma> (rd (r_r r)) = io_EOF"
      by (simp_all add: clean_end_def reader_inv_def stream_def)
    with b show ?thesis by simp
  qed
  with b show ?thesis by (auto split: if_splits)
qed

theorem Brdline_first_delimiter_or_fatal_witness:
  "reader_inv (NewReader (Some 0))
   \<and> (case Brdline \<lparr>r_f = Some 0, r_r = NewReader (Some 0)\<rparr> (\<lambda>h. new_file ''ab;cd;'') 59 of
         Inr (s1, r1, \<sigma>1) \<Rightarrow>
           s1 = ''ab;'' \<and>
           (case Brdline r1 \<sigma>1 59 of
              Inr (s2, r2, \<sigma>2) \<Rightarrow>
                s2 = ''cd;'' \<and> Brdline r2 \<sigma>2 59 = Inl (Fatal ''reading input'' io_EOF)
            | Inl a \<Rightarrow> False)
       | Inl a \<Rightarrow> False)"
proof -
  let ?r = "\<lparr>r_f = Some 0, r_r = NewReader (Some 0)\<rparr>"
  let ?s = "\<lambda>h::nat. new_file ''ab;cd;''"
  have d: "char_of (59::int) = CHR '';''" by (simp add: char_of_def)
  have i: "reader_inv (r_r ?r)" by (simp add: reader_inv_def NewReader_def)
  have st: "stream (r_r ?r) ?s = ''ab;cd;''"
    by (simp add: stream_def readable_def NewReader_def new_file_def)
  have re: "read_end ?s (rd (r_r ?r)) = io_EOF"
    by (simp add: read_end_def NewReader_def new_file_def)
  from Brdline_first_delimiter_or_fatal [OF i, of 59 ?s] st d
  obtain r1 \<sigma>1 where b1: "Brdline ?r ?s 59 = Inr (''ab;'', r1, \<sigma>1)"
    and s1: "stream (r_r r1) \<sigma>1 = ''cd;''" and i1: "reader_inv (r_r r1)"
    and rd1: "rd (r_r r1) = rd (r_r ?r)" and re1: "read_end \<sigma>1 (rd (r_r ?r)) = read_end ?s (rd (r_r ?r))"
    by auto
  from Brdline_first_delimiter_or_fatal [OF i1, of 59 \<sigma>1] s1 d
  obtain r2 \<sigma>2 where b2: "Brdline r1 \<sigma>1 59 = Inr (''cd;'', r2, \<sigma>2)"
    and s2: "stream (r_r r2) \<sigma>2 = []" and i2: "reader_inv (r_r r2)"
    and rd2: "rd (r_r r2) = rd (r_r r1)" and re2: "read_end \<sigma>2 (rd (r_r r1)) = read_end \<sigma>1 (rd (r_r r1))"
    by auto
  from Brdline_first_delimiter_or_fatal [OF i2, of 59 \<sigma>2] s2 d
  have "Brdline r2 \<sigma>2 59 = Inl (Fatal ''reading input'' (read_end \<sigma>2 (rd (r_r r2))))" by simp
  moreover have "read_end \<sigma>2 (rd (r_r r2)) = io_EOF" using re re1 re2 rd1 rd2 by simp
  ultimately show ?thesis using i b1 b2 by simp
qed

text \<open>
  C1 as stated fails: on the input \<open>ab\<close>, which ends with no delimiter, the call does not
  return the remaining bytes: it aborts, and the cause is the clean end of the stream.
\<close>

theorem Brdline_fatal_at_end_counterexample:
  "Brdline \<lparr>r_f = Some 0, r_r = NewReader (Some 0)\<rparr> (\<lambda>h. new_file ''ab'') 59
     = Inl (Fatal ''reading input'' io_EOF)"
proof -
  let ?r = "\<lparr>r_f = Some 0, r_r = NewReader (Some 0)\<rparr>"
  let ?s = "\<lambda>h::nat. new_file ''ab''"
  have d: "char_of (59::int) = CHR '';''" by (simp add: char_of_def)
  have i: "reader_inv (r_r ?r)" by (simp add: reader_inv_def NewReader_def)
  have st: "stream (r_r ?r) ?s = ''ab''"
    by (simp add: stream_def readable_def NewReader_def new_file_def)
  have re: "read_end ?s (rd (r_r ?r)) = io_EOF"
    by (simp add: read_end_def NewReader_def new_file_def)
  from Brdline_stream [OF i, of 59 ?s] st d re show ?thesis by simp
qed

subsection \<open>Writes, flushes and the logical position\<close>

lemma file_Write_track:
  "file_Write fl q = (n, e, fl') \<Longrightarrow>
     cursor fl' = cursor fl + n \<and> closed fl' = closed fl \<and> capacity fl' = capacity fl
     \<and> (e = None \<longrightarrow> n = length q) \<and> (\<not> closed fl \<and> capacity fl = None \<longrightarrow> e = None)"
  by (auto simp: file_Write_def Let_def split: if_splits option.splits)

lemma os_Write_track:
  assumes "os_Write \<sigma> fp q = (n, e, \<sigma>')"
  shows "(e = None \<longrightarrow> n = length q) \<and> wcur fp \<sigma>' = wcur fp \<sigma> + n
    \<and> (whealthy fp \<sigma> \<longrightarrow> e = None) \<and> whealthy fp \<sigma>' = whealthy fp \<sigma>"
proof (cases fp)
  case None
  with assms show ?thesis by (auto simp: os_Write_def whealthy_def wcur_def)
next
  case (Some h)
  obtain fl where f: "file_Write (\<sigma> h) q = (n, e, fl)" and s: "\<sigma>' = \<sigma>(h := fl)"
    using assms Some by (auto simp: os_Write_def split: prod.splits)
  from file_Write_track [OF f] Some s show ?thesis by (simp add: whealthy_def wcur_def)
qed

lemma tracks_trans:
  assumes a: "tracks b \<sigma> b1 \<sigma>1 n1 l1" and c: "tracks b1 \<sigma>1 b2 \<sigma>2 n2 l2"
  shows "tracks b \<sigma> b2 \<sigma>2 (n1 + n2) (l1 + l2)"
proof -
  from a have a1: "wr b1 = wr b"
    and a2: "werr b1 = None \<Longrightarrow> werr b = None \<and> n1 = l1 \<and> wpos b1 \<sigma>1 = wpos b \<sigma> + l1"
    and a3: "werr b = None \<Longrightarrow> whealthy (wr b) \<sigma> \<Longrightarrow> werr b1 = None \<and> whealthy (wr b) \<sigma>1"
    unfolding tracks_def by blast+
  from c have c1: "wr b2 = wr b1"
    and c2: "werr b2 = None \<Longrightarrow> werr b1 = None \<and> n2 = l2 \<and> wpos b2 \<sigma>2 = wpos b1 \<sigma>1 + l2"
    and c3: "werr b1 = None \<Longrightarrow> whealthy (wr b1) \<sigma>1 \<Longrightarrow> werr b2 = None \<and> whealthy (wr b1) \<sigma>2"
    unfolding tracks_def by blast+
  have "wr b2 = wr b" by (rule trans [OF c1 a1])
  moreover have "werr b = None \<and> n1 + n2 = l1 + l2 \<and> wpos b2 \<sigma>2 = wpos b \<sigma> + (l1 + l2)"
    if "werr b2 = None"
  proof -
    from c2 [OF that] have e1: "werr b1 = None" and n2: "n2 = l2"
      and p2: "wpos b2 \<sigma>2 = wpos b1 \<sigma>1 + l2" by blast+
    from a2 [OF e1] have e: "werr b = None" and n1: "n1 = l1"
      and p1: "wpos b1 \<sigma>1 = wpos b \<sigma> + l1" by blast+
    from p1 p2 have "wpos b2 \<sigma>2 = wpos b \<sigma> + (l1 + l2)" by linarith
    with e n1 n2 show ?thesis by blast
  qed
  moreover have "werr b2 = None \<and> whealthy (wr b) \<sigma>2" if "werr b = None" "whealthy (wr b) \<sigma>"
  proof -
    from a3 [OF that] have "werr b1 = None" "whealthy (wr b1) \<sigma>1" unfolding a1 by blast+
    from c3 [OF this] show ?thesis unfolding a1 .
  qed
  ultimately show ?thesis unfolding tracks_def by blast
qed
lemma Flush_tracks:
  assumes "bufio_Flush b \<sigma> = (e, b', \<sigma>')"
  shows "tracks b \<sigma> b' \<sigma>' 0 0 \<and> e = werr b' \<and> (werr b' = None \<longrightarrow> wbuf b' = [])"
proof (cases "werr b \<noteq> None")
  case True
  with assms have "e = werr b" "b' = b" "\<sigma>' = \<sigma>" by (auto simp: bufio_Flush_def)
  with True show ?thesis by (auto simp: tracks_def)
next
  case ne: False
  show ?thesis
  proof (cases "wbuf b = []")
    case True
    with ne assms have "e = None" "b' = b" "\<sigma>' = \<sigma>" by (auto simp: bufio_Flush_def)
    with True ne show ?thesis by (simp add: tracks_def)
  next
    case False
    obtain n e1 \<sigma>1 where w: "os_Write \<sigma> (wr b) (wbuf b) = (n, e1, \<sigma>1)"
      by (cases "os_Write \<sigma> (wr b) (wbuf b)") auto
    note t = os_Write_track [OF w]
    show ?thesis
    proof (cases "e1 = None")
      case True
      with t have n: "n = length (wbuf b)" by simp
      with True False ne assms w have r: "e = None" "b' = b\<lparr>wbuf := []\<rparr>" "\<sigma>' = \<sigma>1"
        by (auto simp: bufio_Flush_def Let_def)
      from t n have "wcur (wr b) \<sigma>1 = wcur (wr b) \<sigma> + length (wbuf b)" by simp
      with r t ne show ?thesis by (simp add: tracks_def wpos_def)
    next
      case e: False
      with False ne assms w have r: "e = e1" "b' = b\<lparr>wbuf := drop n (wbuf b), werr := e1\<rparr>" "\<sigma>' = \<sigma>1"
        by (auto simp: bufio_Flush_def Let_def)
      with t e ne show ?thesis by (auto simp: tracks_def)
    qed
  qed
qed

lemma keeps_step:
  assumes k: "keeps b1 \<sigma>1 (drop n p) (nn + n) res"
    and w: "wr b1 = wr b" and n: "n \<le> length p"
    and e: "werr b1 = None \<Longrightarrow> werr b = None \<and> wpos b1 \<sigma>1 = wpos b \<sigma> + n"
    and h: "werr b = None \<Longrightarrow> whealthy (wr b) \<sigma> \<Longrightarrow> werr b1 = None \<and> whealthy (wr b) \<sigma>1"
  shows "keeps b \<sigma> p nn res"
proof -
  obtain nn' p' b' \<sigma>' where res: "res = (nn', p', b', \<sigma>')" by (cases res) auto
  from k res have k1: "wr b' = wr b1"
    and k2: "werr b' = None \<Longrightarrow> werr b1 = None \<and> nn' + length p' = nn + n + length (drop n p)
                \<and> wpos b' \<sigma>' + length p' = wpos b1 \<sigma>1 + length (drop n p)
                \<and> length p' \<le> Available b'"
    and k3: "werr b1 = None \<Longrightarrow> whealthy (wr b1) \<sigma>1 \<Longrightarrow> werr b' = None \<and> whealthy (wr b1) \<sigma>'"
    unfolding keeps_def by auto
  have dl: "n + length (drop n p) = length p" using n by simp
  have a: "wr b' = wr b" by (rule trans [OF k1 w])
  have b: "werr b = None \<and> nn' + length p' = nn + length p
                \<and> wpos b' \<sigma>' + length p' = wpos b \<sigma> + length p
                \<and> length p' \<le> Available b'" if "werr b' = None"
  proof -
    from k2 [OF that] have e1: "werr b1 = None"
      and c1: "nn' + length p' = nn + n + length (drop n p)"
      and c2: "wpos b' \<sigma>' + length p' = wpos b1 \<sigma>1 + length (drop n p)"
      and c3: "length p' \<le> Available b'" by blast+
    from e [OF e1] have e0: "werr b = None" and p1: "wpos b1 \<sigma>1 = wpos b \<sigma> + n" by blast+
    from c1 dl have "nn' + length p' = nn + length p" by linarith
    moreover from c2 p1 dl have "wpos b' \<sigma>' + length p' = wpos b \<sigma> + length p" by linarith
    ultimately show ?thesis using e0 c3 by blast
  qed
  have c: "werr b' = None \<and> whealthy (wr b) \<sigma>'" if "werr b = None" "whealthy (wr b) \<sigma>"
  proof -
    from h [OF that] have "werr b1 = None" "whealthy (wr b1) \<sigma>1" unfolding w by blast+
    from k3 [OF this] show ?thesis unfolding w .
  qed
  from a b c show ?thesis unfolding keeps_def res by auto
qed

lemma keeps_exit:
  "\<not> (Available b < length p \<and> werr b = None) \<Longrightarrow> keeps b \<sigma> p nn (nn, p, b, \<sigma>)"
  unfolding keeps_def by auto

lemma Flush_step:
  assumes f: "bufio_Flush (b\<lparr>wbuf := wbuf b @ take n p\<rparr>) \<sigma> = (e, b1, \<sigma>1)" and n: "n \<le> length p"
  shows "wr b1 = wr b"
    and "werr b1 = None \<Longrightarrow> werr b = None \<and> wpos b1 \<sigma>1 = wpos b \<sigma> + n"
    and "werr b = None \<Longrightarrow> whealthy (wr b) \<sigma> \<Longrightarrow> werr b1 = None \<and> whealthy (wr b) \<sigma>1"
proof -
  let ?b0 = "b\<lparr>wbuf := wbuf b @ take n p\<rparr>"
  from Flush_tracks [OF f] have t: "tracks ?b0 \<sigma> b1 \<sigma>1 0 0" by simp
  have p0: "wpos ?b0 \<sigma> = wpos b \<sigma> + n" using n by (simp add: wpos_def)
  from t show "wr b1 = wr b" unfolding tracks_def by simp
  from t p0 show "werr b1 = None \<Longrightarrow> werr b = None \<and> wpos b1 \<sigma>1 = wpos b \<sigma> + n"
    unfolding tracks_def by simp
  from t show "werr b = None \<Longrightarrow> whealthy (wr b) \<sigma> \<Longrightarrow> werr b1 = None \<and> whealthy (wr b) \<sigma>1"
    unfolding tracks_def by simp
qed

lemma Write_loop_keeps: "keeps b \<sigma> p nn (Write_loop b \<sigma> p nn)"
proof (induction b \<sigma> p nn rule: Write_loop.induct)
  case (1 b \<sigma> p nn)
  show ?case
  proof (cases "Available b < length p \<and> werr b = None")
    case False
    then have "Write_loop b \<sigma> p nn = (nn, p, b, \<sigma>)" by (subst Write_loop.simps) auto
    with keeps_exit [OF False] show ?thesis by simp
  next
    case True
    show ?thesis
    proof (cases "wbuf b = []")
      case nil: True
      obtain n e \<sigma>1 where w: "os_Write \<sigma> (wr b) p = (n, e, \<sigma>1)"
        by (cases "os_Write \<sigma> (wr b) p") auto
      from True nil w have step: "Write_loop b \<sigma> p nn = Write_loop (b\<lparr>werr := e\<rparr>) \<sigma>1 (drop n p) (nn + n)"
        by (subst Write_loop.simps) simp
      note ih = "1.IH"(1) [OF True nil w [symmetric] refl]
      note t = os_Write_track [OF w]
      from os_Write_count [OF w] have nl: "n \<le> length p" by simp
      have "keeps b \<sigma> p nn (Write_loop (b\<lparr>werr := e\<rparr>) \<sigma>1 (drop n p) (nn + n))"
      proof (rule keeps_step [OF ih _ nl])
        show "wr (b\<lparr>werr := e\<rparr>) = wr b" by simp
        show "werr b = None \<and> wpos (b\<lparr>werr := e\<rparr>) \<sigma>1 = wpos b \<sigma> + n" if "werr (b\<lparr>werr := e\<rparr>) = None"
          using that True t by (simp add: wpos_def)
        show "werr (b\<lparr>werr := e\<rparr>) = None \<and> whealthy (wr b) \<sigma>1" if "werr b = None" "whealthy (wr b) \<sigma>"
          using that t by simp
      qed
      with step show ?thesis by simp
    next
      case False
      let ?n = "min (Available b) (length p)"
      obtain e b1 \<sigma>1 where f: "bufio_Flush (b\<lparr>wbuf := wbuf b @ take ?n p\<rparr>) \<sigma> = (e, b1, \<sigma>1)"
        by (cases "bufio_Flush (b\<lparr>wbuf := wbuf b @ take ?n p\<rparr>) \<sigma>") auto
      from True False f have step: "Write_loop b \<sigma> p nn = Write_loop b1 \<sigma>1 (drop ?n p) (nn + ?n)"
        by (subst Write_loop.simps) (simp add: Let_def)
      note ih = "1.IH"(2) [OF True False refl f [symmetric] refl]
      have nl: "?n \<le> length p" by simp
      note fs = Flush_step [OF f nl]
      from keeps_step [OF ih fs(1) nl fs(2) fs(3)] step show ?thesis by simp
    qed
  qed
qed

lemma WriteString_loop_keeps: "keeps b \<sigma> s nn (WriteString_loop b \<sigma> s nn)"
proof (induction b \<sigma> s nn rule: WriteString_loop.induct)
  case (1 b \<sigma> s nn)
  show ?case
  proof (cases "Available b < length s \<and> werr b = None")
    case False
    then have "WriteString_loop b \<sigma> s nn = (nn, s, b, \<sigma>)" by (subst WriteString_loop.simps) auto
    with keeps_exit [OF False] show ?thesis by simp
  next
    case True
    let ?n = "min (Available b) (length s)"
    obtain e b1 \<sigma>1 where f: "bufio_Flush (b\<lparr>wbuf := wbuf b @ take ?n s\<rparr>) \<sigma> = (e, b1, \<sigma>1)"
      by (cases "bufio_Flush (b\<lparr>wbuf := wbuf b @ take ?n s\<rparr>) \<sigma>") auto
    from True f have step: "WriteString_loop b \<sigma> s nn = WriteString_loop b1 \<sigma>1 (drop ?n s) (nn + ?n)"
      by (subst WriteString_loop.simps) (simp add: Let_def)
    note ih = "1.IH" [OF True refl f [symmetric] refl]
    have nl: "?n \<le> length s" by simp
    note fs = Flush_step [OF f nl]
    from keeps_step [OF ih fs(1) nl fs(2) fs(3)] step show ?thesis by simp
  qed
qed
lemma tracks_refl: "tracks b \<sigma> b \<sigma> 0 0"
  unfolding tracks_def by auto

lemma bufio_Write_tracks:
  assumes "bufio_Write b \<sigma> p = (n, e, b', \<sigma>')"
  shows "tracks b \<sigma> b' \<sigma>' n (length p)"
proof -
  obtain nn' p' b1 \<sigma>1 where l: "Write_loop b \<sigma> p 0 = (nn', p', b1, \<sigma>1)"
    by (cases "Write_loop b \<sigma> p 0") auto
  from Write_loop_keeps [of b \<sigma> p 0] l have k1: "wr b1 = wr b"
    and k2: "werr b1 = None \<Longrightarrow> werr b = None \<and> nn' + length p' = length p
                \<and> wpos b1 \<sigma>1 + length p' = wpos b \<sigma> + length p \<and> length p' \<le> Available b1"
    and k3: "werr b = None \<Longrightarrow> whealthy (wr b) \<sigma> \<Longrightarrow> werr b1 = None \<and> whealthy (wr b) \<sigma>1"
    unfolding keeps_def by auto
  show ?thesis
  proof (cases "werr b1 = None")
    case False
    with assms l have r: "b' = b1" "\<sigma>' = \<sigma>1" by (auto simp: bufio_Write_def)
    with False k1 k3 show ?thesis unfolding tracks_def by auto
  next
    case True
    note k = k2 [OF True]
    from k have fit: "min (Available b1) (length p') = length p'" by simp
    from True assms l fit have r: "n = nn' + length p'" "b' = b1\<lparr>wbuf := wbuf b1 @ p'\<rparr>" "\<sigma>' = \<sigma>1"
      by (auto simp: bufio_Write_def Let_def)
    have "wpos b' \<sigma>' = wpos b1 \<sigma>1 + length p'" unfolding r by (simp add: wpos_def)
    with k have "wpos b' \<sigma>' = wpos b \<sigma> + length p" by linarith
    moreover have "n = length p" using r k by simp
    moreover have "werr b' = None" "wr b' = wr b" using r True k1 by simp_all
    moreover have "werr b = None" using k by simp
    moreover have "whealthy (wr b) \<sigma> \<Longrightarrow> whealthy (wr b) \<sigma>'" using k3 r \<open>werr b = None\<close> by simp
    ultimately show ?thesis unfolding tracks_def by blast
  qed
qed

lemma bufio_WriteString_tracks:
  assumes "bufio_WriteString b \<sigma> s = (n, e, b', \<sigma>')"
  shows "tracks b \<sigma> b' \<sigma>' n (length s)"
proof -
  obtain nn' p' b1 \<sigma>1 where l: "WriteString_loop b \<sigma> s 0 = (nn', p', b1, \<sigma>1)"
    by (cases "WriteString_loop b \<sigma> s 0") auto
  from WriteString_loop_keeps [of b \<sigma> s 0] l have k1: "wr b1 = wr b"
    and k2: "werr b1 = None \<Longrightarrow> werr b = None \<and> nn' + length p' = length s
                \<and> wpos b1 \<sigma>1 + length p' = wpos b \<sigma> + length s \<and> length p' \<le> Available b1"
    and k3: "werr b = None \<Longrightarrow> whealthy (wr b) \<sigma> \<Longrightarrow> werr b1 = None \<and> whealthy (wr b) \<sigma>1"
    unfolding keeps_def by auto
  show ?thesis
  proof (cases "werr b1 = None")
    case False
    with assms l have r: "b' = b1" "\<sigma>' = \<sigma>1" by (auto simp: bufio_WriteString_def)
    with False k1 k3 show ?thesis unfolding tracks_def by auto
  next
    case True
    note k = k2 [OF True]
    from k have fit: "min (Available b1) (length p') = length p'" by simp
    from True assms l fit have r: "n = nn' + length p'" "b' = b1\<lparr>wbuf := wbuf b1 @ p'\<rparr>" "\<sigma>' = \<sigma>1"
      by (auto simp: bufio_WriteString_def Let_def)
    have "wpos b' \<sigma>' = wpos b1 \<sigma>1 + length p'" unfolding r by (simp add: wpos_def)
    with k have "wpos b' \<sigma>' = wpos b \<sigma> + length s" by linarith
    moreover have "n = length s" using r k by simp
    moreover have "werr b' = None" "wr b' = wr b" using r True k1 by simp_all
    moreover have "werr b = None" using k by simp
    moreover have "whealthy (wr b) \<sigma> \<Longrightarrow> whealthy (wr b) \<sigma>'" using k3 r \<open>werr b = None\<close> by simp
    ultimately show ?thesis unfolding tracks_def by blast
  qed
qed

lemma bufio_WriteByte_tracks:
  assumes "bufio_WriteByte b \<sigma> c = (e, b', \<sigma>')"
  shows "tracks b \<sigma> b' \<sigma>' (if e = None then 1 else 0) 1"
proof (cases "werr b \<noteq> None")
  case True
  with assms have "e = werr b" "b' = b" "\<sigma>' = \<sigma>" by (auto simp: bufio_WriteByte_def)
  with True show ?thesis unfolding tracks_def by auto
next
  case ne: False
  show ?thesis
  proof (cases "Available b \<le> 0")
    case False
    with ne assms have r: "e = None" "b' = b\<lparr>wbuf := wbuf b @ [c]\<rparr>" "\<sigma>' = \<sigma>"
      by (auto simp: bufio_WriteByte_def)
    have "wpos b' \<sigma>' = wpos b \<sigma> + 1" unfolding r by (simp add: wpos_def)
    with r ne show ?thesis unfolding tracks_def by auto
  next
    case True
    obtain e1 b1 \<sigma>1 where f: "bufio_Flush b \<sigma> = (e1, b1, \<sigma>1)"
      by (cases "bufio_Flush b \<sigma>") auto
    from Flush_tracks [OF f] have t: "tracks b \<sigma> b1 \<sigma>1 0 0" and e1: "e1 = werr b1" by simp_all
    show ?thesis
    proof (cases "e1 = None")
      case False
      with True ne assms f have r: "e = werr b1" "b' = b1" "\<sigma>' = \<sigma>1"
        by (auto simp: bufio_WriteByte_def)
      with False e1 t show ?thesis unfolding tracks_def by auto
    next
      case n1: True
      with True ne assms f have r: "e = None" "b' = b1\<lparr>wbuf := wbuf b1 @ [c]\<rparr>" "\<sigma>' = \<sigma>1"
        by (auto simp: bufio_WriteByte_def)
      from t n1 e1 have w: "wr b1 = wr b" and p: "wpos b1 \<sigma>1 = wpos b \<sigma>"
        and h: "whealthy (wr b) \<sigma> \<Longrightarrow> whealthy (wr b) \<sigma>1"
        using ne unfolding tracks_def by auto
      have "wpos b' \<sigma>' = wpos b1 \<sigma>1 + 1" unfolding r by (simp add: wpos_def)
      with p have "wpos b' \<sigma>' = wpos b \<sigma> + 1" by linarith
      with r w h ne n1 e1 show ?thesis unfolding tracks_def by auto
    qed
  qed
qed

lemma do_call_tracks:
  assumes "do_call w \<sigma> c = (n, e, w', \<sigma>')"
  shows "tracks (w_w w) \<sigma> (w_w w') \<sigma>' n (length (call_bytes c)) \<and> w_f w' = w_f w"
proof (cases c)
  case (Call_Write p)
  with assms obtain b' where "bufio_Write (w_w w) \<sigma> p = (n, e, b', \<sigma>')" "w' = w\<lparr>w_w := b'\<rparr>"
    by (auto simp: Writer_Write_def split: prod.splits)
  with bufio_Write_tracks [of "w_w w" \<sigma> p n e b' \<sigma>'] Call_Write show ?thesis by simp
next
  case (Call_WriteString s)
  with assms obtain b' where "bufio_WriteString (w_w w) \<sigma> s = (n, e, b', \<sigma>')" "w' = w\<lparr>w_w := b'\<rparr>"
    by (auto simp: Writer_WriteString_def split: prod.splits)
  with bufio_WriteString_tracks [of "w_w w" \<sigma> s n e b' \<sigma>'] Call_WriteString show ?thesis by simp
next
  case (Call_WriteByte x)
  with assms obtain b' where "bufio_WriteByte (w_w w) \<sigma> x = (e, b', \<sigma>')" "w' = w\<lparr>w_w := b'\<rparr>"
    "n = (if e = None then 1 else 0)"
    by (auto simp: Writer_WriteByte_def split: prod.splits)
  with bufio_WriteByte_tracks [of "w_w w" \<sigma> x e b' \<sigma>'] Call_WriteByte show ?thesis by simp
qed

lemma do_calls_tracks:
  "do_calls w \<sigma> cs = (tot, w', \<sigma>') \<Longrightarrow>
     tracks (w_w w) \<sigma> (w_w w') \<sigma>' tot (sum_list (map (\<lambda>c. length (call_bytes c)) cs))
     \<and> w_f w' = w_f w"
proof (induction cs arbitrary: w \<sigma> tot w' \<sigma>')
  case Nil
  then show ?case using tracks_refl by simp
next
  case (Cons c cs)
  obtain n e w1 \<sigma>1 where c: "do_call w \<sigma> c = (n, e, w1, \<sigma>1)"
    by (cases "do_call w \<sigma> c") auto
  obtain m w2 \<sigma>2 where r: "do_calls w1 \<sigma>1 cs = (m, w2, \<sigma>2)"
    by (cases "do_calls w1 \<sigma>1 cs") auto
  from Cons.prems c r have t: "tot = n + m" "w' = w2" "\<sigma>' = \<sigma>2" by simp_all
  from do_call_tracks [OF c] Cons.IH [OF r] tracks_trans show ?case
    unfolding t by fastforce
qed
subsection \<open>Writer.Offset after a sequence of writes\<close>

lemma Writer_Offset_ok:
  assumes on: "Writer_on h w" and ok: "Writer_Offset w \<sigma> = Inr (off, w', \<sigma>')"
  shows "bufio_Flush (w_w w) \<sigma> = (None, w_w w', \<sigma>') \<and> wbuf (w_w w') = [] \<and> werr (w_w w') = None
    \<and> \<sigma>' = \<sigma>(h := flushed (\<sigma> h) (wbuf (w_w w))) \<and> off = int (cursor (\<sigma>' h))"
proof -
  from on have wr: "wr (w_w w) = Some h" and wf: "w_f w = Some h" by (simp_all add: Writer_on_def)
  obtain e b \<sigma>1 where f: "bufio_Flush (w_w w) \<sigma> = (e, b, \<sigma>1)"
    by (cases "bufio_Flush (w_w w) \<sigma>") auto
  from ok f have e: "e = None" by (cases e) (simp_all add: Writer_Offset_def)
  with f have f': "bufio_Flush (w_w w) \<sigma> = (None, b, \<sigma>1)" by simp
  note fo = bufio_Flush_ok [OF wr f']
  from ok f' wf obtain fl where s: "file_Seek (\<sigma>1 h) 0 1 = Inr (off, fl)"
    and r: "w' = w\<lparr>w_w := b\<rparr>" "\<sigma>' = \<sigma>1(h := fl)"
    by (auto simp: Writer_Offset_def os_Seek_def split: sum.splits)
  from file_Seek_ok [OF s] have "fl = \<sigma>1 h" and o: "off = int (cursor (\<sigma>1 h))" by simp_all
  with r have s1: "\<sigma>' = \<sigma>1" by simp
  from fo r s1 o f' show ?thesis by simp
qed

text \<open>
  C4. A Writer is created on the handle \<open>h\<close> of a new file, whose cursor is at 0. After
  any sequence of calls of Write, WriteString and WriteByte and a Flush, whenever
  \<^const>\<open>Writer_Offset\<close> returns, it returns the sum of the counts the calls reported, which
  is the sum of the counts of bytes passed, and the raw cursor. It does return, with that
  sum, when the handle is healthy and the sum fits an \<^verbatim>\<open>int64\<close>. On any Writer on
  \<open>h\<close>, an Offset that returns has flushed the buffered bytes to the file first and
  returns the raw cursor after the flush.
\<close>

theorem Writer_Offset_after_writes:
  assumes "Create (Inr h) = Inr w" and "cursor (\<sigma> h) = 0"
    and "do_calls w \<sigma> cs = (cnt, w1, \<sigma>1)" and "Writer_Flush w1 \<sigma>1 = (ferr, w2, \<sigma>2)"
  shows "(\<forall>off w3 \<sigma>3. Writer_Offset w2 \<sigma>2 = Inr (off, w3, \<sigma>3) \<longrightarrow>
            off = int cnt \<and> cnt = sum_list (map (\<lambda>c. length (call_bytes c)) cs)
            \<and> wbuf (w_w w3) = [] \<and> off = int (cursor (\<sigma>3 h)))
    \<and> (\<not> closed (\<sigma> h) \<and> capacity (\<sigma> h) = None
         \<and> int (sum_list (map (\<lambda>c. length (call_bytes c)) cs)) \<le> maxInt64 \<longrightarrow>
           (\<exists>w3 \<sigma>3. Writer_Offset w2 \<sigma>2
               = Inr (int (sum_list (map (\<lambda>c. length (call_bytes c)) cs)), w3, \<sigma>3)))
    \<and> (\<forall>wa \<sigma>a off wa' \<sigma>a'. Writer_on h wa \<and> Writer_Offset wa \<sigma>a = Inr (off, wa', \<sigma>a') \<longrightarrow>
           wbuf (w_w wa') = [] \<and> \<sigma>a' = \<sigma>a(h := flushed (\<sigma>a h) (wbuf (w_w wa)))
           \<and> off = int (cursor (\<sigma>a' h)))"
proof -
  let ?L = "sum_list (map (\<lambda>c. length (call_bytes c)) cs)"
  from assms(1) have w: "w = \<lparr>w_f = Some h, w_w = NewWriter (Some h)\<rparr>"
    by (auto simp: Create_def)
  then have w0: "wr (w_w w) = Some h" "werr (w_w w) = None" "wbuf (w_w w) = []" "w_f w = Some h"
    by (simp_all add: NewWriter_def)
  from w0 assms(2) have p0: "wpos (w_w w) \<sigma> = 0" by (simp add: wpos_def wcur_def)
  from do_calls_tracks [OF assms(3)] have t1: "tracks (w_w w) \<sigma> (w_w w1) \<sigma>1 cnt ?L"
    and f1: "w_f w1 = w_f w" by simp_all
  obtain b2 where fl: "bufio_Flush (w_w w1) \<sigma>1 = (ferr, b2, \<sigma>2)" and w2: "w2 = w1\<lparr>w_w := b2\<rparr>"
    using assms(4) by (auto simp: Writer_Flush_def split: prod.splits)
  from Flush_tracks [OF fl] w2 have t2: "tracks (w_w w1) \<sigma>1 (w_w w2) \<sigma>2 0 0" by simp
  from tracks_trans [OF t1 t2] have t12: "tracks (w_w w) \<sigma> (w_w w2) \<sigma>2 cnt ?L" by simp
  from t12 w0 have wr2: "wr (w_w w2) = Some h" unfolding tracks_def by simp
  from w2 f1 w0 have wf2: "w_f w2 = Some h" by simp
  from wr2 wf2 have on2: "Writer_on h w2" by (simp add: Writer_on_def)
  obtain e3 b3 \<sigma>3 where f3: "bufio_Flush (w_w w2) \<sigma>2 = (e3, b3, \<sigma>3)"
    by (cases "bufio_Flush (w_w w2) \<sigma>2") auto
  from Flush_tracks [OF f3] have t3: "tracks (w_w w2) \<sigma>2 b3 \<sigma>3 0 0" and e3: "e3 = werr b3"
    and em: "werr b3 = None \<Longrightarrow> wbuf b3 = []" by simp_all
  from tracks_trans [OF t12 t3] have t: "tracks (w_w w) \<sigma> b3 \<sigma>3 cnt ?L" by simp
  from t have t_a: "wr b3 = wr (w_w w)"
    and t_b: "werr b3 = None \<Longrightarrow> cnt = ?L \<and> wpos b3 \<sigma>3 = wpos (w_w w) \<sigma> + ?L"
    and t_c: "whealthy (wr (w_w w)) \<sigma> \<Longrightarrow> werr b3 = None \<and> whealthy (wr (w_w w)) \<sigma>3"
    using w0 unfolding tracks_def by auto
  have A: "off = int cnt \<and> cnt = ?L \<and> wbuf (w_w w3') = [] \<and> off = int (cursor (\<sigma>3' h))"
    if ok: "Writer_Offset w2 \<sigma>2 = Inr (off, w3', \<sigma>3')" for off w3' \<sigma>3'
  proof -
    from Writer_Offset_ok [OF on2 ok] f3 have r: "e3 = None" "w_w w3' = b3" "\<sigma>3' = \<sigma>3"
      and o: "off = int (cursor (\<sigma>3' h))" and wb: "wbuf (w_w w3') = []" by simp_all
    from r e3 have "werr b3 = None" by simp
    from t_b [OF this] p0 have c: "cnt = ?L" and p: "wpos b3 \<sigma>3 = ?L" by simp_all
    from p r wb t_a w0 have "cursor (\<sigma>3 h) = ?L" by (simp add: wpos_def wcur_def)
    with o r c wb show ?thesis by simp
  qed
  have B: "\<exists>w3' \<sigma>3'. Writer_Offset w2 \<sigma>2 = Inr (int ?L, w3', \<sigma>3')"
    if hl: "\<not> closed (\<sigma> h) \<and> capacity (\<sigma> h) = None \<and> int ?L \<le> maxInt64"
  proof -
    from hl w0 have "whealthy (wr (w_w w)) \<sigma>" by (simp add: whealthy_def)
    from t_c [OF this] w0 have e: "werr b3 = None" and nc: "\<not> closed (\<sigma>3 h)"
      by (simp_all add: whealthy_def)
    from t_b [OF e] p0 have p: "wpos b3 \<sigma>3 = ?L" by simp
    from em [OF e] p t_a w0 have c: "cursor (\<sigma>3 h) = ?L" by (simp add: wpos_def wcur_def)
    with hl have "int (cursor (\<sigma>3 h)) \<le> maxInt64" by simp
    from file_Seek_0_1 [OF nc this] c have "file_Seek (\<sigma>3 h) 0 1 = Inr (int ?L, \<sigma>3 h)" by simp
    with f3 e3 e wf2 have "Writer_Offset w2 \<sigma>2 = Inr (int ?L, w2\<lparr>w_w := b3\<rparr>, \<sigma>3(h := \<sigma>3 h))"
      by (simp add: Writer_Offset_def os_Seek_def)
    then show ?thesis by blast
  qed
  have C: "wbuf (w_w wa') = [] \<and> \<sigma>a' = \<sigma>a(h := flushed (\<sigma>a h) (wbuf (w_w wa)))
           \<and> off = int (cursor (\<sigma>a' h))"
    if "Writer_on h wa \<and> Writer_Offset wa \<sigma>a = Inr (off, wa', \<sigma>a')" for wa \<sigma>a off wa' \<sigma>a'
    using that Writer_Offset_ok [of h wa \<sigma>a off wa' \<sigma>a'] by simp
  from A B C show ?thesis by blast
qed

theorem Writer_Offset_after_writes_witness:
  "Create (Inr 0) = Inr \<lparr>w_f = Some 0, w_w = NewWriter (Some 0)\<rparr>
   \<and> cursor (new_file []) = 0
   \<and> (case do_calls \<lparr>w_f = Some 0, w_w = NewWriter (Some 0)\<rparr> (\<lambda>h. new_file [])
              [Call_Write ''ab'', Call_WriteString ''cde'', Call_WriteByte (CHR ''f'')] of
         (cnt, w1, \<sigma>1) \<Rightarrow>
           (case Writer_Flush w1 \<sigma>1 of
              (ferr, w2, \<sigma>2) \<Rightarrow>
                (case Writer_Offset w2 \<sigma>2 of
                   Inr (off, w3, \<sigma>3) \<Rightarrow> off = 6 \<and> cnt = 6 \<and> cursor (\<sigma>3 0) = 6
                 | Inl a \<Rightarrow> False)))"
proof -
  let ?w = "\<lparr>w_f = Some 0, w_w = NewWriter (Some 0)\<rparr>"
  let ?s = "\<lambda>h::nat. new_file []"
  let ?cs = "[Call_Write ''ab'', Call_WriteString ''cde'', Call_WriteByte (CHR ''f'')]"
  have c: "Create (Inr 0) = Inr ?w" by (simp add: Create_def)
  have z: "cursor (?s 0) = 0" by (simp add: new_file_def)
  obtain cnt w1 \<sigma>1 where d: "do_calls ?w ?s ?cs = (cnt, w1, \<sigma>1)"
    by (cases "do_calls ?w ?s ?cs") auto
  obtain ferr w2 \<sigma>2 where f: "Writer_Flush w1 \<sigma>1 = (ferr, w2, \<sigma>2)"
    by (cases "Writer_Flush w1 \<sigma>1") auto
  note t = Writer_Offset_after_writes [OF c z d f]
  have h: "\<not> closed (?s 0) \<and> capacity (?s 0) = None
      \<and> int (sum_list (map (\<lambda>c. length (call_bytes c)) ?cs)) \<le> maxInt64"
    by (simp add: new_file_def maxInt64_def)
  with t obtain w3 \<sigma>3 where o: "Writer_Offset w2 \<sigma>2
      = Inr (int (sum_list (map (\<lambda>c. length (call_bytes c)) ?cs)), w3, \<sigma>3)"
    by blast
  with t have "int (sum_list (map (\<lambda>c. length (call_bytes c)) ?cs)) = int cnt
      \<and> int (sum_list (map (\<lambda>c. length (call_bytes c)) ?cs)) = int (cursor (\<sigma>3 0))"
    by blast
  then have "cnt = 6" "cursor (\<sigma>3 0) = 6" by simp_all
  with c z d f o show ?thesis by simp
qed

subsection \<open>Every call leaves a reader in the state between two calls\<close>

text \<open>
  The hypothesis \<^const>\<open>reader_inv\<close> of the theorems above is no restriction on the
  Readers of the package: the constructors establish it and every function that returns
  keeps it.
\<close>

lemma reader_inv_NewReader: "reader_inv (NewReader fp)"
  by (simp add: reader_inv_def NewReader_def)

lemma reader_inv_Open: "Open res = Inr r \<Longrightarrow> reader_inv (r_r r)"
  using reader_inv_NewReader by (auto simp: Open_def split: sum.splits)

lemma reader_inv_BufReader: "reader_inv (r_r (BufReader fp))"
  using reader_inv_NewReader by (simp add: BufReader_def)

lemma reader_inv_Seek:
  "Reader_Seek r \<sigma> offset whence = Inr (pos, r', \<sigma>') \<Longrightarrow> reader_inv (r_r r')"
  by (auto simp: Reader_Seek_def Let_def Reset_def reader_inv_def split: sum.splits)

lemma reader_inv_Read:
  assumes "reader_inv (r_r r)" and "Reader_Read r \<sigma> p = (k, e, p', r', \<sigma>')"
  shows "reader_inv (r_r r')"
proof (cases "p = []")
  case True
  with assms show ?thesis
    by (auto simp: Reader_Read_def bufio_Read_def readErr_def reader_inv_def)
next
  case False
  obtain b' where "bufio_Read (r_r r) \<sigma> p = (k, e, p', b', \<sigma>')" and "r' = r\<lparr>r_r := b'\<rparr>"
    using assms(2) by (auto simp: Reader_Read_def split: prod.splits)
  with bufio_Read_stream [OF assms(1) False, of \<sigma> k e p' b' \<sigma>'] show ?thesis by simp
qed

lemma reader_inv_Bread:
  "reader_inv (r_r r) \<Longrightarrow> Bread r \<sigma> p = (res, p', r', \<sigma>') \<Longrightarrow> reader_inv (r_r r')"
  using Bread_stream [of r \<sigma> p res p' r' \<sigma>'] by simp

lemma reader_inv_Bgetc:
  assumes "reader_inv (r_r r)" and "Bgetc r \<sigma> = Inr (c, r', \<sigma>')"
  shows "reader_inv (r_r r')"
proof -
  from assms(1) have e: "rerr (r_r r) = None" and l: "length (rbuf (r_r r)) \<le> defaultBufSize"
    by (simp_all add: reader_inv_def)
  show ?thesis
  proof (cases "rbuf (r_r r)")
    case (Cons x rest)
    with assms(2) e l show ?thesis
      by (auto simp: Bgetc_def ReadByte_eq reader_inv_def)
  next
    case Nil
    note nil = Nil
    show ?thesis
    proof (cases "take defaultBufSize (readable \<sigma> (rd (r_r r)))")
      case Nil
      with nil assms(2) e show ?thesis
        by (auto simp: Bgetc_def ReadByte_eq reader_inv_def split: if_splits)
    next
      case (Cons x rest)
      then have "length (x # rest) \<le> defaultBufSize" by (metis length_take min.cobounded2)
      with Cons nil assms(2) e show ?thesis
        by (auto simp: Bgetc_def ReadByte_eq reader_inv_def)
    qed
  qed
qed

lemma reader_inv_Peek:
  assumes "reader_inv (r_r r)" and "Reader_Peek r \<sigma> n = (bs, e, r', \<sigma>')"
  shows "reader_inv (r_r r')"
proof (cases "0 \<le> n \<and> n \<le> int defaultBufSize")
  case False
  with assms show ?thesis by (auto simp: Reader_Peek_def Peek_def split: if_splits)
next
  case True
  from assms(1) have e: "rerr (r_r r) = None" and l: "length (rbuf (r_r r)) \<le> defaultBufSize"
    by (simp_all add: reader_inv_def)
  have "length (rbuf (r_r r) @ take (defaultBufSize - length (rbuf (r_r r))) (readable \<sigma> (rd (r_r r))))
      \<le> defaultBufSize"
    using l by (auto simp: min_def)
  with Peek_eq [OF e, of n \<sigma>] True assms(2) e l show ?thesis
    by (auto simp: Reader_Peek_def reader_inv_def Let_def split: if_splits)
qed

lemma reader_inv_Brdline:
  assumes "reader_inv (r_r r)" and "Brdline r \<sigma> delim = Inr (s, r', \<sigma>')"
  shows "reader_inv (r_r r')"
  using Brdline_stream [OF assms(1), of delim \<sigma>] assms(2) by (auto split: if_splits)

subsection \<open>Adapter mode\<close>

text \<open>
  C9, as amended. \<^const>\<open>BufReader\<close> and \<^const>\<open>BufWriter\<close> leave the handle field \<^verbatim>\<open>nil\<close>.
  On a Reader whose handle is \<^verbatim>\<open>nil\<close>, Seek and Offset call the seek of the \<^verbatim>\<open>nil\<close>
  handle, which returns the error \<^const>\<open>ErrInvalid\<close>, and they end in \<^verbatim>\<open>log.Fatalf\<close> with
  that error, whatever the arguments and the store; on such a Writer they end in
  \<^verbatim>\<open>log.Fatalf\<close> too, after the flush, with the flush's error when the flush fails.
  Neither ever returns a position: a Seek or an Offset that returns one was called on a
  Reader or Writer with a handle.
\<close>

theorem adapter_mode_has_no_handle:
  assumes "r_f r = None" and "w_f w = None"
  shows "r_f (BufReader s) = None \<and> w_f (BufWriter s) = None
    \<and> os_Seek \<sigma> (r_f r) offset whence = Inl ErrInvalid
    \<and> os_Seek \<sigma> (w_f w) offset whence = Inl ErrInvalid
    \<and> Reader_Seek r \<sigma> offset whence = Inl (Fatal ''seeking in output'' ErrInvalid)
    \<and> Reader_Offset r \<sigma> = Inl (Fatal ''seeking in output [0, 1]'' ErrInvalid)
    \<and> Writer_Seek w \<sigma> offset whence =
        Inl (case fst (bufio_Flush (w_w w) \<sigma>) of
               Some err \<Rightarrow> Fatal ''writing output'' err
             | None \<Rightarrow> Fatal ''seeking in output'' ErrInvalid)
    \<and> Writer_Offset w \<sigma> =
        Inl (case fst (bufio_Flush (w_w w) \<sigma>) of
               Some err \<Rightarrow> Fatal ''writing output'' err
             | None \<Rightarrow> Fatal ''seeking in output [0, 1]'' ErrInvalid)"
proof -
  have a: "r_f (BufReader s) = None \<and> w_f (BufWriter s) = None"
    by (simp add: BufReader_def BufWriter_def)
  have s: "os_Seek \<sigma> (r_f r) offset whence = Inl ErrInvalid
    \<and> os_Seek \<sigma> (w_f w) offset whence = Inl ErrInvalid"
    using assms by (simp add: os_Seek_def)
  have b: "Reader_Seek r \<sigma> offset whence = Inl (Fatal ''seeking in output'' ErrInvalid)"
    using assms(1) by (simp add: Reader_Seek_def os_Seek_def Let_def)
  have c: "Reader_Offset r \<sigma> = Inl (Fatal ''seeking in output [0, 1]'' ErrInvalid)"
    using assms(1) by (simp add: Reader_Offset_def os_Seek_def)
  obtain e b1 \<sigma>1 where f: "bufio_Flush (w_w w) \<sigma> = (e, b1, \<sigma>1)"
    by (cases "bufio_Flush (w_w w) \<sigma>")
  have d: "Writer_Seek w \<sigma> offset whence =
        Inl (case fst (bufio_Flush (w_w w) \<sigma>) of
               Some err \<Rightarrow> Fatal ''writing output'' err
             | None \<Rightarrow> Fatal ''seeking in output'' ErrInvalid)"
    using assms(2) f by (cases e) (simp_all add: Writer_Seek_def os_Seek_def)
  have e: "Writer_Offset w \<sigma> =
        Inl (case fst (bufio_Flush (w_w w) \<sigma>) of
               Some err \<Rightarrow> Fatal ''writing output'' err
             | None \<Rightarrow> Fatal ''seeking in output [0, 1]'' ErrInvalid)"
    using assms(2) f by (cases e) (simp_all add: Writer_Offset_def os_Seek_def)
  from a s b c d e show ?thesis by simp
qed

theorem adapter_mode_has_no_handle_witness:
  "r_f (BufReader (Some 0)) = None \<and> w_f (BufWriter (Some 0)) = None
    \<and> Reader_Seek (BufReader (Some 0)) (\<lambda>h. new_file ''abc'') 0 0
        = Inl (Fatal ''seeking in output'' ErrInvalid)
    \<and> Reader_Offset (BufReader (Some 0)) (\<lambda>h. new_file ''abc'')
        = Inl (Fatal ''seeking in output [0, 1]'' ErrInvalid)
    \<and> Writer_Seek (BufWriter (Some 0)) (\<lambda>h. new_file ''abc'') 0 0
        = Inl (Fatal ''seeking in output'' ErrInvalid)
    \<and> Writer_Offset (BufWriter (Some 0)) (\<lambda>h. new_file ''abc'')
        = Inl (Fatal ''seeking in output [0, 1]'' ErrInvalid)"
proof -
  have r: "r_f (BufReader (Some 0)) = None" by (simp add: BufReader_def)
  have w: "w_f (BufWriter (Some 0)) = None" by (simp add: BufWriter_def)
  have f: "fst (bufio_Flush (w_w (BufWriter (Some 0))) (\<lambda>h. new_file ''abc'')) = None"
    by (simp add: BufWriter_def NewWriter_def bufio_Flush_def)
  show ?thesis
    using adapter_mode_has_no_handle [OF r w, of "Some 0" "\<lambda>h. new_file ''abc''" 0 0] f
    by simp
qed

text \<open>
  C9 as stated fails. A Reader made by \<^const>\<open>BufReader\<close> over the stream of a file of
  five bytes reads two of them; a Writer made by \<^const>\<open>BufWriter\<close> is given two bytes.
  Seek and Offset on either do not fault on the \<^verbatim>\<open>nil\<close> handle: its seek returns
  \<^const>\<open>ErrInvalid\<close> as an ordinary error value, and the four calls end in \<^verbatim>\<open>log.Fatalf\<close>
  with the message of the package and that error as the cause.
\<close>

theorem adapter_Seek_is_fatal_counterexample:
  "(case Reader_Read (BufReader (Some 0)) (\<lambda>h. new_file ''hello'') ''??'' of
      (k, e, p, r, \<sigma>) \<Rightarrow>
        k = 2 \<and> e = None \<and> p = ''he'' \<and> r_f r = None
        \<and> os_Seek \<sigma> (r_f r) 0 1 = Inl ErrInvalid
        \<and> Reader_Seek r \<sigma> 0 1 = Inl (Fatal ''seeking in output'' ErrInvalid)
        \<and> Reader_Offset r \<sigma> = Inl (Fatal ''seeking in output [0, 1]'' ErrInvalid))
   \<and> (case Writer_WriteString (BufWriter (Some 0)) (\<lambda>h. new_file []) ''hi'' of
        (k, e, w, \<sigma>) \<Rightarrow>
          k = 2 \<and> e = None \<and> w_f w = None
          \<and> os_Seek \<sigma> (w_f w) 0 0 = Inl ErrInvalid
          \<and> Writer_Seek w \<sigma> 0 0 = Inl (Fatal ''seeking in output'' ErrInvalid)
          \<and> Writer_Offset w \<sigma> = Inl (Fatal ''seeking in output [0, 1]'' ErrInvalid))"
proof -
  let ?so = "\<lambda>h::nat. new_file ''hello''"
  let ?bo = "NewReader (Some 0)"
  have inv: "reader_inv ?bo" by (simp add: reader_inv_def NewReader_def)
  have pn: "''??'' \<noteq> []" by simp
  have rs: "readable ?so (rd ?bo) = ''hello''"
    by (simp add: readable_def NewReader_def new_file_def)
  have R: "Reader_Read (BufReader (Some 0)) ?so ''??'' =
      (2, None, ''he'', \<lparr>r_f = None, r_r = \<lparr>rd = Some 0, rbuf = ''llo'', rerr = None\<rparr>\<rparr>,
       advance ?so (Some 0) 5)"
    using bufio_Read_eq [OF inv pn, of ?so] rs
    by (simp add: Reader_Read_def BufReader_def NewReader_def defaultBufSize_def eval_nat_numeral)
  let ?wo = "\<lambda>h::nat. new_file []"
  obtain k e w \<sigma> where W: "Writer_WriteString (BufWriter (Some 0)) ?wo ''hi'' = (k, e, w, \<sigma>)"
    by (cases "Writer_WriteString (BufWriter (Some 0)) ?wo ''hi''") auto
  have ws: "bufio_WriteString (NewWriter (Some 0)) ?wo ''hi'' =
      (2, None, \<lparr>wr = Some 0, wbuf = ''hi'', werr = None\<rparr>, ?wo)"
    unfolding bufio_WriteString_def
    apply (subst WriteString_loop.simps)
    apply (simp add: NewWriter_def Available_def defaultBufSize_def)
    done
  from W ws have w: "k = 2" "e = None" "w = \<lparr>w_f = None, w_w = \<lparr>wr = Some 0, wbuf = ''hi'', werr = None\<rparr>\<rparr>"
    "\<sigma> = ?wo"
    by (simp_all add: Writer_WriteString_def BufWriter_def)
  have fl: "fst (bufio_Flush \<lparr>wr = Some 0, wbuf = ''hi'', werr = None\<rparr> ?wo) = None"
    by (simp add: bufio_Flush_def os_Write_def file_Write_def new_file_def Let_def)
  have A: "os_Seek x None 0 1 = Inl ErrInvalid" for x
    by (simp add: os_Seek_def)
  have B: "os_Seek x None 0 0 = Inl ErrInvalid" for x
    by (simp add: os_Seek_def)
  have rsk: "Reader_Seek \<lparr>r_f = None, r_r = b\<rparr> x 0 1 = Inl (Fatal ''seeking in output'' ErrInvalid)" for b x
    by (simp add: Reader_Seek_def os_Seek_def Let_def)
  have rof: "Reader_Offset \<lparr>r_f = None, r_r = b\<rparr> x = Inl (Fatal ''seeking in output [0, 1]'' ErrInvalid)" for b x
    by (simp add: Reader_Offset_def os_Seek_def)
  have wsk: "Writer_Seek w \<sigma> 0 0 = Inl (Fatal ''seeking in output'' ErrInvalid)"
    using fl w by (cases "bufio_Flush \<lparr>wr = Some 0, wbuf = ''hi'', werr = None\<rparr> ?wo")
      (simp add: Writer_Seek_def os_Seek_def)
  have wof: "Writer_Offset w \<sigma> = Inl (Fatal ''seeking in output [0, 1]'' ErrInvalid)"
    using fl w by (cases "bufio_Flush \<lparr>wr = Some 0, wbuf = ''hi'', werr = None\<rparr> ?wo")
      (simp add: Writer_Offset_def os_Seek_def)
  from R W w A B rsk rof wsk wof show ?thesis by simp
qed

end
